theory Spec2Isabelle
  imports Main
begin

section \<open>Pages\<close>

text \<open>
  A \<open>Page\<close> of \<open>main.py\<close> carries a name and a parent page (\<open>None\<close> for a root).
  Fetching a page and turning a link into a canonical name are external, so a page is
  modelled by its canonical name. \<open>__eq__\<close> and \<open>__hash__\<close> compare the names only.
\<close>

datatype page = Page (getName: string) (getParent: "page option")

text \<open>The pages met when walking \<open>getParent\<close> until it is \<open>None\<close>, nearest first.\<close>

fun ancestors :: "page \<Rightarrow> page list" where
  "ancestors (Page n None) = []"
| "ancestors (Page n (Some p)) = p # ancestors p"

section \<open>Python sets of pages\<close>

text \<open>
  A Python \<open>set\<close> of pages is a list without two pages of the same name. Membership,
  \<open>add\<close>, \<open>remove\<close>, \<open>difference\<close> and \<open>intersection\<close> go by name, as \<open>__eq__\<close> does;
  \<open>add\<close> keeps the element already present. The order in which CPython pops from and
  iterates over a set is not specified: it is a parameter of the model (see \<open>env\<close>).
\<close>

definition names :: "page list \<Rightarrow> string set" where
  "names xs = getName ` set xs"

definition member :: "page \<Rightarrow> page list \<Rightarrow> bool" where
  "member p xs = (getName p \<in> names xs)"

definition add_page :: "page \<Rightarrow> page list \<Rightarrow> page list" where
  "add_page p xs = (if member p xs then xs else xs @ [p])"

definition remove_page :: "page \<Rightarrow> page list \<Rightarrow> page list" where
  "remove_page p xs = filter (\<lambda>q. getName q \<noteq> getName p) xs"

definition difference :: "page list \<Rightarrow> page list \<Rightarrow> page list" where
  "difference xs ys = filter (\<lambda>p. \<not> member p ys) xs"

text \<open>
  \<open>xs.intersection(ys)\<close> walks the smaller of the two sets and keeps its elements
  that are in the other one.
\<close>

definition intersection :: "page list \<Rightarrow> page list \<Rightarrow> page list" where
  "intersection xs ys =
     (if length xs < length ys then filter (\<lambda>p. member p ys) xs
      else filter (\<lambda>p. member p xs) ys)"

text \<open>Python's \<open>xs[a:b]\<close> for integers \<open>a\<close> and \<open>b\<close>, negative ones counting from the end.\<close>

definition py_slice :: "int \<Rightarrow> int \<Rightarrow> 'a list \<Rightarrow> 'a list" where
  "py_slice a b xs =
     (let n = int (length xs);
          a' = (if a < 0 then max 0 (a + n) else min a n);
          b' = (if b < 0 then max 0 (b + n) else min b n)
      in take (nat (b' - a')) (drop (nat a') xs))"

section \<open>The environment\<close>

text \<open>
  \<open>neighbors forward name\<close> is what \<open>getChildren\<close> reads from the network: the names
  linked from the page (\<open>forward = True\<close>, the starting tree) or the names of the pages
  that link to it (\<open>forward = False\<close>), in the order found, already passed through
  \<open>__fixLink\<close>. \<open>pop\<close> is the element \<open>set.pop()\<close> takes from a set, \<open>iter\<close> the order
  in which a \<open>for\<close> loop visits a set.
\<close>

record env =
  neighbors :: "bool \<Rightarrow> string \<Rightarrow> string list"
  pop :: "page list \<Rightarrow> page"
  iter :: "page list \<Rightarrow> page list"

definition sched_ok :: "env \<Rightarrow> bool" where
  "sched_ok ev \<longleftrightarrow>
     (\<forall>q. q \<noteq> [] \<longrightarrow> pop ev q \<in> set q) \<and> (\<forall>xs. set (iter ev xs) = set xs)"

section \<open>Tree\<close>

datatype error = KeyError | IndexError | UnboundLocalError

record tree =
  root :: page
  isStarting :: bool
  endpoints :: "page list"
  queue :: "page list"
  queueLevel :: nat
  levels :: "page list list"

definition Tree :: "page \<Rightarrow> bool \<Rightarrow> tree" where
  "Tree r starting =
     \<lparr>root = r, isStarting = starting, endpoints = [r], queue = [r],
      queueLevel = 0, levels = [[r]]\<rparr>"

text \<open>\<open>getChildren\<close>: one \<open>Page(fixed, searchPage)\<close> per link, added to a set.\<close>

definition getChildren :: "env \<Rightarrow> bool \<Rightarrow> page \<Rightarrow> page list" where
  "getChildren ev starting searchPage =
     fold add_page
       (map (\<lambda>n. Page n (Some searchPage)) (neighbors ev starting (getName searchPage))) []"

text \<open>
  \<open>explore\<close>. The result is the tree after the call and the returned triple.
  \<open>queue.pop()\<close> on an empty set and \<open>endpoints.remove\<close> of an absent page raise
  \<open>KeyError\<close>; \<open>levels[-1]\<close> and \<open>levels[queueLevel]\<close> out of range raise \<open>IndexError\<close>.
  The test \<open>queueLevel == len(levels) - 1\<close> is written \<open>Suc queueLevel = length levels\<close>.
\<close>

definition explore :: "env \<Rightarrow> tree \<Rightarrow> error + (tree \<times> bool \<times> page list \<times> bool)" where
  "explore ev t =
     (if queue t = [] then Inl KeyError
      else
        let searchPage = pop ev (queue t);
            queue1 = remove_page searchPage (queue t)
        in
        if \<not> member searchPage (endpoints t) then Inl KeyError
        else
          let endpoints1 = remove_page searchPage (endpoints t);
              children = getChildren ev (isStarting t) searchPage;
              levels1 = (if Suc (queueLevel t) = length (levels t)
                         then levels t @ [[]] else levels t);
              unseenChildren = difference children (concat levels1)
          in
          if unseenChildren \<noteq> [] \<and> levels1 = [] then Inl IndexError
          else
            let levels2 = (if unseenChildren = [] then levels1
                           else butlast levels1 @ [fold add_page unseenChildren (last levels1)]);
                endpoints2 = fold add_page unseenChildren endpoints1
            in
            if queue1 = [] then
              let queueLevel1 = queueLevel t + 1 in
              if length levels2 \<le> queueLevel1 then Inl IndexError
              else if levels2 ! queueLevel1 = [] then
                Inr (t\<lparr>endpoints := endpoints2, queue := queue1,
                        queueLevel := queueLevel1, levels := levels2\<rparr>,
                     False, [], False)
              else
                Inr (t\<lparr>endpoints := endpoints2, queue := levels2 ! queueLevel1,
                        queueLevel := queueLevel1, levels := levels2\<rparr>,
                     True, unseenChildren, True)
            else
              Inr (t\<lparr>endpoints := endpoints2, queue := queue1, levels := levels2\<rparr>,
                   True, unseenChildren, False))"

section \<open>Game\<close>

record game =
  startTree :: tree
  endTree :: tree
  searchIndex :: int
  paths :: "page list list"

definition Game :: "string \<Rightarrow> string \<Rightarrow> game" where
  "Game startPage endPage =
     \<lparr>startTree = Tree (Page startPage None) True,
      endTree = Tree (Page endPage None) False,
      searchIndex = 0, paths = []\<rparr>"

text \<open>
  \<open>__getPath\<close>: the endpoint of each tree that equals \<open>mid\<close>, then the parents of the
  one in the starting tree in front of \<open>mid\<close> and the parents of the one in the ending
  tree behind it. A tree without such an endpoint leaves \<open>startMid\<close> or \<open>endMid\<close>
  unbound.
\<close>

definition getPath :: "game \<Rightarrow> page \<Rightarrow> error + page list" where
  "getPath g mid =
     (case find (\<lambda>p. getName p = getName mid) (endpoints (startTree g)) of
        None \<Rightarrow> Inl UnboundLocalError
      | Some startMid \<Rightarrow>
          (case find (\<lambda>p. getName p = getName mid) (endpoints (endTree g)) of
             None \<Rightarrow> Inl UnboundLocalError
           | Some endMid \<Rightarrow> Inr (rev (ancestors startMid) @ [mid] @ ancestors endMid)))"

text \<open>
  The two branches of \<open>search\<close> differ only in the tree they explore and the message
  they print; \<open>side = True\<close> is the branch of the starting tree.
\<close>

definition side_tree :: "bool \<Rightarrow> game \<Rightarrow> tree" where
  "side_tree side g = (if side then startTree g else endTree g)"

definition other_tree :: "bool \<Rightarrow> game \<Rightarrow> tree" where
  "other_tree side g = (if side then endTree g else startTree g)"

definition set_side_tree :: "bool \<Rightarrow> tree \<Rightarrow> game \<Rightarrow> game" where
  "set_side_tree side t g = (if side then g\<lparr>startTree := t\<rparr> else g\<lparr>endTree := t\<rparr>)"

text \<open>The body of \<open>for mid in endpoints.intersection(res[1])\<close>, one \<open>mid\<close> after the other.\<close>

fun record_paths :: "int \<Rightarrow> page list \<Rightarrow> game \<Rightarrow> error + game" where
  "record_paths targetIndex [] g = Inr g"
| "record_paths targetIndex (mid # mids) g =
     (case getPath g mid of
        Inl e \<Rightarrow> Inl e
      | Inr p \<Rightarrow>
          record_paths targetIndex mids
            (g\<lparr>searchIndex := (if searchIndex g < targetIndex then searchIndex g + 1
                                else searchIndex g),
               paths := paths g @ [p]\<rparr>))"

text \<open>
  The inner loop \<open>while not queueEmpty and self.searchIndex < targetIndex\<close>. The flag of
  the result is \<open>False\<close> when \<open>explore\<close> reported that nothing is left (\<open>search\<close> then
  returns), \<open>True\<close> when the loop ended by its condition. \<open>None\<close> is a loop that never
  ends.
\<close>

partial_function (option) explore_loop ::
  "env \<Rightarrow> bool \<Rightarrow> int \<Rightarrow> bool \<Rightarrow> game \<Rightarrow> (error + bool \<times> game) option" where
  "explore_loop ev side targetIndex queueEmpty g =
     (if \<not> queueEmpty \<and> searchIndex g < targetIndex then
        (case explore ev (side_tree side g) of
           Inl e \<Rightarrow> Some (Inl e)
         | Inr (t', ok, new, lastInQueue) \<Rightarrow>
             if \<not> ok then Some (Inr (False, set_side_tree side t' g))
             else
               (case record_paths targetIndex
                       (iter ev (intersection (endpoints (other_tree side g)) new))
                       (set_side_tree side t' g) of
                  Inl e \<Rightarrow> Some (Inl e)
                | Inr g' \<Rightarrow> explore_loop ev side targetIndex lastInQueue g'))
      else Some (Inr (True, g)))"

text \<open>The condition that sends \<open>search\<close> into the branch of the starting tree.\<close>

definition choose_start :: "game \<Rightarrow> bool" where
  "choose_start g \<longleftrightarrow>
     int (queueLevel (startTree g)) = int (length (levels (startTree g))) - 2
     \<or> (int (queueLevel (endTree g)) = int (length (levels (endTree g))) - 1
        \<and> length (endpoints (startTree g)) \<le> length (endpoints (endTree g)))"

text \<open>What \<open>search\<close> prints before it returns: which of its return statements it took.\<close>

datatype outcome = NoPathsStarting | NoPathsEnding | Finished

text \<open>The outer loop \<open>while self.searchIndex < targetIndex\<close>.\<close>

partial_function (option) search_loop ::
  "env \<Rightarrow> int \<Rightarrow> game \<Rightarrow> (error + outcome \<times> game) option" where
  "search_loop ev targetIndex g =
     (if searchIndex g < targetIndex then
        Option.bind (explore_loop ev (choose_start g) targetIndex False g)
          (\<lambda>r. case r of
                 Inl e \<Rightarrow> Some (Inl e)
               | Inr (continue, g') \<Rightarrow>
                   if continue then search_loop ev targetIndex g'
                   else Some (Inr (if choose_start g then NoPathsStarting else NoPathsEnding, g')))
      else Some (Inr (Finished, g)))"

text \<open>
  \<open>search(count)\<close>: the game after the call, the list returned and the outcome.
  \<open>newCount\<close> is \<open>0\<close> at the two early returns, and counts only what is printed after them.
\<close>

definition search ::
  "env \<Rightarrow> int \<Rightarrow> game \<Rightarrow> (error + game \<times> page list list \<times> outcome) option" where
  "search ev count g =
     (let targetIndex = searchIndex g + count in
      if endpoints (startTree g) = [] then
        Some (Inr (g, py_slice (searchIndex g - 0) (searchIndex g) (paths g), NoPathsStarting))
      else if endpoints (endTree g) = [] then
        Some (Inr (g, py_slice (searchIndex g - 0) (searchIndex g) (paths g), NoPathsEnding))
      else
        let originalStartIndex = searchIndex g;
            served = max 0 (min targetIndex (int (length (paths g))) - searchIndex g);
            g1 = g\<lparr>searchIndex := searchIndex g + served\<rparr>
        in
        Option.bind (search_loop ev targetIndex g1)
          (\<lambda>r. case r of
                 Inl e \<Rightarrow> Some (Inl e)
               | Inr (out, g2) \<Rightarrow>
                   Some (Inr (g2,
                              py_slice originalStartIndex (originalStartIndex + count) (paths g2),
                              out))))"

section \<open>Invariants of a tree\<close>

text \<open>
  What holds of a tree between two calls of \<open>explore\<close>: the first level is the root;
  the queue level is the last level or the one before it; no name occurs twice in the
  levels; the queue is a part of its level, and the whole of it when that level is
  the last one; the endpoints are the pages of the queue and, when a deeper level
  exists, those of the deepest level.
\<close>


definition tree_inv :: "tree \<Rightarrow> bool" where
  "tree_inv t \<longleftrightarrow>
     levels t \<noteq> [] \<and> hd (levels t) = [root t] \<and>
     (Suc (queueLevel t) = length (levels t) \<or> queueLevel t + 2 = length (levels t)) \<and>
     distinct (map getName (concat (levels t))) \<and>
     set (queue t) \<subseteq> set (levels t ! queueLevel t) \<and>
     (Suc (queueLevel t) = length (levels t) \<longrightarrow> set (queue t) = set (levels t ! queueLevel t)) \<and>
     set (endpoints t) =
       set (queue t) \<union> (if queueLevel t + 2 = length (levels t) then set (last (levels t)) else {})"

text \<open>
  The tree that \<open>explore\<close> leaves behind and the triple it returns, written out:
  \<open>unseen\<close> is \<open>unseenChildren\<close>, \<open>grown\<close> the new \<open>levels\<close>.
\<close>

definition unseen :: "env \<Rightarrow> tree \<Rightarrow> page list" where
  "unseen ev t =
     difference (getChildren ev (isStarting t) (pop ev (queue t))) (concat (levels t))"

definition grown :: "env \<Rightarrow> tree \<Rightarrow> page list list" where
  "grown ev t =
     (if Suc (queueLevel t) = length (levels t) then levels t @ [unseen ev t]
      else butlast (levels t) @ [last (levels t) @ unseen ev t])"

definition explored :: "env \<Rightarrow> tree \<Rightarrow> tree" where
  "explored ev t =
     (let rest = remove_page (pop ev (queue t)) (queue t) in
      \<lparr>root = root t, isStarting = isStarting t,
       endpoints = remove_page (pop ev (queue t)) (endpoints t) @ unseen ev t,
       queue = (if rest = [] then grown ev t ! Suc (queueLevel t) else rest),
       queueLevel = (if rest = [] then Suc (queueLevel t) else queueLevel t),
       levels = grown ev t\<rparr>)"

definition explored_ok :: "env \<Rightarrow> tree \<Rightarrow> bool" where
  "explored_ok ev t \<longleftrightarrow>
     (remove_page (pop ev (queue t)) (queue t) = [] \<longrightarrow> grown ev t ! Suc (queueLevel t) \<noteq> [])"


section \<open>Reachable trees\<close>

text \<open>
  The trees reached from a new \<open>Tree\<close> by calls of \<open>explore\<close>, each of which
  returned \<open>ok = True\<close>: \<open>search\<close> never calls \<open>explore\<close> on a tree that has
  returned \<open>ok = False\<close>.
\<close>

inductive tree_reach :: "env \<Rightarrow> tree \<Rightarrow> bool" for ev :: env where
  reach_Tree: "tree_reach ev (Tree r starting)"
| reach_explore:
    "tree_reach ev t \<Longrightarrow> explore ev t = Inr (t', True, new, lastInQueue) \<Longrightarrow> tree_reach ev t'"

text \<open>A small graph: \<open>A\<close> links to \<open>B\<close> and \<open>C\<close>, \<open>B\<close> links to \<open>D\<close>.\<close>

definition nb_ABCD :: "bool \<Rightarrow> string \<Rightarrow> string list" where
  "nb_ABCD forward n =
     (if n = ''A'' then [''B'', ''C''] else if n = ''B'' then [''D''] else [])"

definition ev_ABCD :: env where
  "ev_ABCD = \<lparr>neighbors = nb_ABCD, pop = hd, iter = (\<lambda>xs. xs)\<rparr>"

definition tree_ABCD_1 :: tree where
  "tree_ABCD_1 =
     \<lparr>root = Page ''A'' None, isStarting = True,
      endpoints = [Page ''B'' (Some (Page ''A'' None)), Page ''C'' (Some (Page ''A'' None))],
      queue = [Page ''B'' (Some (Page ''A'' None)), Page ''C'' (Some (Page ''A'' None))],
      queueLevel = 1,
      levels = [[Page ''A'' None],
                [Page ''B'' (Some (Page ''A'' None)), Page ''C'' (Some (Page ''A'' None))]]\<rparr>"

definition tree_ABCD_2 :: tree where
  "tree_ABCD_2 =
     \<lparr>root = Page ''A'' None, isStarting = True,
      endpoints = [Page ''C'' (Some (Page ''A'' None)),
                   Page ''D'' (Some (Page ''B'' (Some (Page ''A'' None))))],
      queue = [Page ''C'' (Some (Page ''A'' None))],
      queueLevel = 1,
      levels = [[Page ''A'' None],
                [Page ''B'' (Some (Page ''A'' None)), Page ''C'' (Some (Page ''A'' None))],
                [Page ''D'' (Some (Page ''B'' (Some (Page ''A'' None))))]]\<rparr>"

text \<open>The games reached from a new \<open>Game\<close> by calls of \<open>search\<close> that returned.\<close>

inductive game_reach :: "env \<Rightarrow> string \<Rightarrow> string \<Rightarrow> game \<Rightarrow> bool"
  for ev :: env and startPage :: string and endPage :: string where
  reach_Game: "game_reach ev startPage endPage (Game startPage endPage)"
| reach_search:
    "game_reach ev startPage endPage g \<Longrightarrow> search ev count g = Some (Inr (g', res, out))
     \<Longrightarrow> game_reach ev startPage endPage g'"

text \<open>The tree whose root had nothing to explore: what \<open>explore\<close> leaves of a new tree
  when the lookup returns no name but, possibly, the root's own.\<close>

definition exhausted :: "page \<Rightarrow> bool \<Rightarrow> tree" where
  "exhausted r starting =
     \<lparr>root = r, isStarting = starting, endpoints = [], queue = [],
      queueLevel = 1, levels = [[r], []]\<rparr>"

definition ev_none :: env where
  "ev_none = \<lparr>neighbors = (\<lambda>forward n. []), pop = hd, iter = (\<lambda>xs. xs)\<rparr>"

section \<open>Distances and parent chains\<close>

text \<open>The names at the end of a walk of \<open>k\<close> links from \<open>r\<close>, each link looked up in
  the direction \<open>forward\<close>.\<close>

fun steps :: "env \<Rightarrow> bool \<Rightarrow> string \<Rightarrow> nat \<Rightarrow> string set" where
  "steps ev forward r 0 = {r}"
| "steps ev forward r (Suc k) = (\<Union>x \<in> steps ev forward r k. set (neighbors ev forward x))"

text \<open>
  Breadth-first search: a page of level \<open>i\<close> ends a walk of \<open>i\<close> links from the root,
  and the lookup of a page that has been explored (a page of a level above the queue
  level, or a page of the queue level no longer in the queue) returns names of levels
  up to the next one.
\<close>

definition bfs_inv :: "env \<Rightarrow> tree \<Rightarrow> bool" where
  "bfs_inv ev t \<longleftrightarrow>
     (\<forall>i < length (levels t). \<forall>p \<in> set (levels t ! i).
        getName p \<in> steps ev (isStarting t) (getName (root t)) i) \<and>
     (\<forall>i < length (levels t). \<forall>p \<in> set (levels t ! i).
        (i < queueLevel t \<or> (i = queueLevel t \<and> p \<notin> set (queue t))) \<longrightarrow>
        (\<forall>n \<in> set (neighbors ev (isStarting t) (getName p)).
           \<exists>j \<le> Suc i. j < length (levels t) \<and> n \<in> names (levels t ! j)))"

text \<open>Each page of a list was returned by the lookup of the page that follows it.\<close>

fun linked :: "env \<Rightarrow> bool \<Rightarrow> page list \<Rightarrow> bool" where
  "linked ev forward (c # p # ps) =
     (getName c \<in> set (neighbors ev forward (getName p)) \<and> linked ev forward (p # ps))"
| "linked ev forward ps = True"

text \<open>The parents of a page of level \<open>i\<close> are \<open>i\<close> pages, linked, the last one the root.\<close>

definition chain_inv :: "env \<Rightarrow> tree \<Rightarrow> bool" where
  "chain_inv ev t \<longleftrightarrow>
     getParent (root t) = None \<and>
     (\<forall>i < length (levels t). \<forall>p \<in> set (levels t ! i).
        length (ancestors p) = i \<and> linked ev (isStarting t) (p # ancestors p)
        \<and> last (p # ancestors p) = root t)"

section \<open>Invariants of a game\<close>

definition at_boundary :: "tree \<Rightarrow> bool" where
  "at_boundary t \<longleftrightarrow> Suc (queueLevel t) = length (levels t)"

text \<open>
  A recorded path is made of the parents of a page \<open>a\<close> of the starting tree, a page
  \<open>m\<close>, and the parents of a page \<open>b\<close> of the ending tree, the three of one name.
\<close>

definition path_ok :: "game \<Rightarrow> page list \<Rightarrow> bool" where
  "path_ok g p \<longleftrightarrow>
     (\<exists>a b m. p = rev (ancestors a) @ [m] @ ancestors b
        \<and> a \<in> set (concat (levels (startTree g))) \<and> b \<in> set (concat (levels (endTree g)))
        \<and> getName a = getName m \<and> getName b = getName m)
     \<and> 2 \<le> length p
     \<and> length p < length (levels (startTree g)) + length (levels (endTree g))"

text \<open>
  What holds of a game between two calls of \<open>explore\<close>: the invariants of both trees,
  at most one of which has a level half explored; every recorded path is as above;
  the recorded paths are in the order of their lengths; the cursor \<open>searchIndex\<close>
  is within the recorded paths.
\<close>

definition game_inv :: "env \<Rightarrow> game \<Rightarrow> bool" where
  "game_inv ev g \<longleftrightarrow>
     tree_inv (startTree g) \<and> tree_inv (endTree g)
     \<and> chain_inv ev (startTree g) \<and> chain_inv ev (endTree g)
     \<and> isStarting (startTree g) \<and> \<not> isStarting (endTree g)
     \<and> (at_boundary (startTree g) \<or> at_boundary (endTree g))
     \<and> (\<forall>p \<in> set (paths g). path_ok g p)
     \<and> sorted (map length (paths g))
     \<and> 0 \<le> searchIndex g \<and> searchIndex g \<le> int (length (paths g))"

text \<open>
  What holds at each test of the loops of \<open>search\<close>: the cursor is not past the target,
  and when it is before the target every recorded path has been delivered.
\<close>

definition loop_inv :: "env \<Rightarrow> int \<Rightarrow> game \<Rightarrow> bool" where
  "loop_inv ev T g \<longleftrightarrow>
     game_inv ev g \<and> searchIndex g \<le> T
     \<and> (searchIndex g < T \<longrightarrow> searchIndex g = int (length (paths g)))"

text \<open>From \<open>g\<close> to \<open>g'\<close> paths were only appended, the cursor did not move back, and
  the trees kept their roots and lost no level.\<close>

definition extends :: "game \<Rightarrow> game \<Rightarrow> bool" where
  "extends g g' \<longleftrightarrow>
     (\<exists>more. paths g' = paths g @ more) \<and> searchIndex g \<le> searchIndex g'
     \<and> root (startTree g') = root (startTree g) \<and> root (endTree g') = root (endTree g)
     \<and> length (levels (startTree g)) \<le> length (levels (startTree g'))
     \<and> length (levels (endTree g)) \<le> length (levels (endTree g'))"

section \<open>Delivered paths\<close>

text \<open>
  \<open>delivered ev s e ds g\<close>: calls of \<open>search\<close>, each with a \<open>count\<close> that is not negative,
  on the game made by \<open>Game s e\<close> have returned the paths \<open>ds\<close>, in this order, and left
  the game \<open>g\<close>.
\<close>

inductive delivered :: "env \<Rightarrow> string \<Rightarrow> string \<Rightarrow> page list list \<Rightarrow> game \<Rightarrow> bool"
  for ev :: env and startPage :: string and endPage :: string where
  delivered_Game: "delivered ev startPage endPage [] (Game startPage endPage)"
| delivered_search:
    "delivered ev startPage endPage ds g \<Longrightarrow> 0 \<le> count
     \<Longrightarrow> search ev count g = Some (Inr (g', res, out))
     \<Longrightarrow> delivered ev startPage endPage (ds @ res) g'"

text \<open>Each name of a list is returned by the forward lookup of the name before it.\<close>

fun links_forward :: "env \<Rightarrow> string list \<Rightarrow> bool" where
  "links_forward ev (x # y # ys) = (y \<in> set (neighbors ev True x) \<and> links_forward ev (y # ys))"
| "links_forward ev ns = True"

text \<open>\<open>validatePath\<close> of \<open>testing.py\<close>: it asks a starting tree for the children of each
  page of the path and looks for the next page among them.\<close>

definition validatePath :: "env \<Rightarrow> page list \<Rightarrow> bool" where
  "validatePath ev path =
     (if length path < 2 then False
      else list_all (\<lambda>depth. member (path ! (depth + 1)) (getChildren ev True (path ! depth)))
             [0..<length path - 1])"

text \<open>The names of the pages of the paths that a call of \<open>search\<close> returned.\<close>

definition path_names :: "(error + game \<times> page list list \<times> outcome) option \<Rightarrow> string list list" where
  "path_names r = (case r of Some (Inr (g, res, out)) \<Rightarrow> map (map getName) res | _ \<Rightarrow> [])"

section \<open>Three small graphs\<close>

text \<open>\<open>A\<close> links to \<open>B\<close>.\<close>

definition nb_AB :: "bool \<Rightarrow> string \<Rightarrow> string list" where
  "nb_AB forward n =
     (if forward then (if n = ''A'' then [''B''] else [])
      else (if n = ''B'' then [''A''] else []))"

definition ev_AB :: env where
  "ev_AB = \<lparr>neighbors = nb_AB, pop = hd, iter = (\<lambda>xs. xs)\<rparr>"

definition game_AB_1 :: game where
  "game_AB_1 =
     \<lparr>startTree =
        \<lparr>root = Page ''A'' None, isStarting = True,
         endpoints = [Page ''B'' (Some (Page ''A'' None))],
         queue = [Page ''B'' (Some (Page ''A'' None))], queueLevel = 1,
         levels = [[Page ''A'' None], [Page ''B'' (Some (Page ''A'' None))]]\<rparr>,
      endTree =
        \<lparr>root = Page ''B'' None, isStarting = False,
         endpoints = [Page ''B'' None], queue = [Page ''B'' None],
         queueLevel = 0, levels = [[Page ''B'' None]]\<rparr>,
      searchIndex = 1,
      paths = [[Page ''A'' None, Page ''B'' (Some (Page ''A'' None))]]\<rparr>"

text \<open>\<open>A\<close> links to \<open>B\<close> and \<open>C\<close>, and \<open>B\<close> links to \<open>A\<close>.\<close>

definition nb_ABA :: "bool \<Rightarrow> string \<Rightarrow> string list" where
  "nb_ABA forward n =
     (if forward then
        (if n = ''A'' then [''B'', ''C''] else if n = ''B'' then [''A''] else [])
      else
        (if n = ''A'' then [''B''] else if n = ''B'' then [''A'']
         else if n = ''C'' then [''A''] else []))"

definition ev_ABA :: env where
  "ev_ABA = \<lparr>neighbors = nb_ABA, pop = hd, iter = (\<lambda>xs. xs)\<rparr>"

text \<open>\<open>A\<close> links to \<open>W\<close>; \<open>W\<close> links to \<open>M\<close>, \<open>Z\<close> and \<open>D\<close>; \<open>M\<close> links to \<open>W\<close>.\<close>

definition nb_W :: "bool \<Rightarrow> string \<Rightarrow> string list" where
  "nb_W forward n =
     (if forward then
        (if n = ''A'' then [''W'']
         else if n = ''W'' then [''M'', ''Z'', ''D'']
         else if n = ''M'' then [''W''] else [])
      else
        (if n = ''W'' then [''A'', ''M'']
         else if n = ''M'' then [''W'']
         else if n = ''Z'' then [''W'']
         else if n = ''D'' then [''W''] else []))"

definition ev_W :: env where
  "ev_W = \<lparr>neighbors = nb_W, pop = hd, iter = (\<lambda>xs. xs)\<rparr>"

text \<open>The game that \<open>search(1)\<close> leaves, on the graph \<open>A \<rightarrow> B, C\<close>, \<open>B \<rightarrow> A\<close>, of a
  game from \<open>A\<close> to \<open>A\<close>.\<close>

definition game_ABA_1 :: game where
  "game_ABA_1 =
     \<lparr>startTree =
        \<lparr>root = Page ''A'' None, isStarting = True,
         endpoints = [Page ''B'' (Some (Page ''A'' None)), Page ''C'' (Some (Page ''A'' None))],
         queue = [Page ''B'' (Some (Page ''A'' None)), Page ''C'' (Some (Page ''A'' None))],
         queueLevel = 1,
         levels = [[Page ''A'' None],
                   [Page ''B'' (Some (Page ''A'' None)), Page ''C'' (Some (Page ''A'' None))]]\<rparr>,
      endTree =
        \<lparr>root = Page ''A'' None, isStarting = False,
         endpoints = [Page ''B'' (Some (Page ''A'' None))],
         queue = [Page ''B'' (Some (Page ''A'' None))],
         queueLevel = 1,
         levels = [[Page ''A'' None], [Page ''B'' (Some (Page ''A'' None))]]\<rparr>,
      searchIndex = 1,
      paths = [[Page ''A'' None, Page ''B'' (Some (Page ''A'' None)), Page ''A'' None]]\<rparr>"

section \<open>The loops of search as one loop\<close>

text \<open>
  One pass of the body of the inner loop of \<open>search\<close>, on the starting tree
  (\<open>side = True\<close>) or the ending tree: the call of \<open>explore\<close> and the recording of
  the paths. The result is \<open>ok\<close>, \<open>lastInQueue\<close> and the game after the pass.
\<close>

definition explore_step :: "env \<Rightarrow> int \<Rightarrow> bool \<Rightarrow> game \<Rightarrow> error + bool \<times> bool \<times> game" where
  "explore_step ev targetIndex side g =
     (case explore ev (side_tree side g) of
        Inl e \<Rightarrow> Inl e
      | Inr (t', ok, new, lastInQueue) \<Rightarrow>
          if \<not> ok then Inr (False, False, set_side_tree side t' g)
          else
            (case record_paths targetIndex
                    (iter ev (intersection (endpoints (other_tree side g)) new))
                    (set_side_tree side t' g) of
               Inl e \<Rightarrow> Inl e
             | Inr g' \<Rightarrow> Inr (True, lastInQueue, g')))"

text \<open>
  The two loops of \<open>search\<close> run as one: while the cursor is before the target, one
  pass on the tree that the condition of \<open>search\<close> picks in the game as it is. (The
  inner loop stays on its tree while a level of it is half explored, and this is the
  tree that the condition picks then.)
\<close>

partial_function (option) flat_loop ::
  "env \<Rightarrow> int \<Rightarrow> game \<Rightarrow> (error + outcome \<times> game) option" where
  "flat_loop ev targetIndex g =
     (if searchIndex g < targetIndex then
        (case explore_step ev targetIndex (choose_start g) g of
           Inl e \<Rightarrow> Some (Inl e)
         | Inr (ok, lastInQueue, g') \<Rightarrow>
             if \<not> ok then
               Some (Inr (if choose_start g then NoPathsStarting else NoPathsEnding, g'))
             else flat_loop ev targetIndex g')
      else Some (Inr (Finished, g)))"

text \<open>The game with its cursor moved back to \<open>k\<close>, when it is past \<open>k\<close>.\<close>

definition cap :: "int \<Rightarrow> game \<Rightarrow> game" where
  "cap k g = g\<lparr>searchIndex := min k (searchIndex g)\<rparr>"

text \<open>Both trees of the game have endpoints: neither has run out of pages.\<close>

definition alive :: "game \<Rightarrow> bool" where
  "alive g \<longleftrightarrow> endpoints (startTree g) \<noteq> [] \<and> endpoints (endTree g) \<noteq> []"

text \<open>On the graph \<open>A \<rightarrow> W\<close>, \<open>W \<rightarrow> M, Z, D\<close>, \<open>M \<rightarrow> W\<close>: the game from \<open>A\<close> to \<open>D\<close> after
  \<open>search(1)\<close>, and after a second \<open>search(1)\<close>.\<close>

definition game_W_1 :: game where
  "game_W_1 =
     \<lparr>startTree =
        \<lparr>root = Page ''A'' None, isStarting = True,
         endpoints =
           [Page ''M'' (Some (Page ''W'' (Some (Page ''A'' None)))),
            Page ''Z'' (Some (Page ''W'' (Some (Page ''A'' None)))),
            Page ''D'' (Some (Page ''W'' (Some (Page ''A'' None))))],
         queue =
           [Page ''M'' (Some (Page ''W'' (Some (Page ''A'' None)))),
            Page ''Z'' (Some (Page ''W'' (Some (Page ''A'' None)))),
            Page ''D'' (Some (Page ''W'' (Some (Page ''A'' None))))],
         queueLevel = 2,
         levels =
           [[Page ''A'' None], [Page ''W'' (Some (Page ''A'' None))],
            [Page ''M'' (Some (Page ''W'' (Some (Page ''A'' None)))),
             Page ''Z'' (Some (Page ''W'' (Some (Page ''A'' None)))),
             Page ''D'' (Some (Page ''W'' (Some (Page ''A'' None))))]]\<rparr>,
      endTree =
        \<lparr>root = Page ''D'' None, isStarting = False,
         endpoints = [Page ''D'' None], queue = [Page ''D'' None],
         queueLevel = 0, levels = [[Page ''D'' None]]\<rparr>,
      searchIndex = 1,
      paths = [[Page ''A'' None, Page ''W'' (Some (Page ''A'' None)), Page ''D'' None]]\<rparr>"

definition game_W_2 :: game where
  "game_W_2 =
     \<lparr>startTree =
        \<lparr>root = Page ''A'' None, isStarting = True,
         endpoints =
           [Page ''M'' (Some (Page ''W'' (Some (Page ''A'' None)))),
            Page ''Z'' (Some (Page ''W'' (Some (Page ''A'' None)))),
            Page ''D'' (Some (Page ''W'' (Some (Page ''A'' None))))],
         queue =
           [Page ''M'' (Some (Page ''W'' (Some (Page ''A'' None)))),
            Page ''Z'' (Some (Page ''W'' (Some (Page ''A'' None)))),
            Page ''D'' (Some (Page ''W'' (Some (Page ''A'' None))))],
         queueLevel = 2,
         levels =
           [[Page ''A'' None], [Page ''W'' (Some (Page ''A'' None))],
            [Page ''M'' (Some (Page ''W'' (Some (Page ''A'' None)))),
             Page ''Z'' (Some (Page ''W'' (Some (Page ''A'' None)))),
             Page ''D'' (Some (Page ''W'' (Some (Page ''A'' None))))]]\<rparr>,
      endTree =
        \<lparr>root = Page ''D'' None, isStarting = False,
         endpoints =
           [Page ''A'' (Some (Page ''W'' (Some (Page ''D'' None)))),
            Page ''M'' (Some (Page ''W'' (Some (Page ''D'' None))))],
         queue =
           [Page ''A'' (Some (Page ''W'' (Some (Page ''D'' None)))),
            Page ''M'' (Some (Page ''W'' (Some (Page ''D'' None))))],
         queueLevel = 2,
         levels =
           [[Page ''D'' None], [Page ''W'' (Some (Page ''D'' None))],
            [Page ''A'' (Some (Page ''W'' (Some (Page ''D'' None)))),
             Page ''M'' (Some (Page ''W'' (Some (Page ''D'' None))))]]\<rparr>,
      searchIndex = 2,
      paths =
        [[Page ''A'' None, Page ''W'' (Some (Page ''A'' None)), Page ''D'' None],
         [Page ''A'' None, Page ''W'' (Some (Page ''A'' None)),
          Page ''M'' (Some (Page ''W'' (Some (Page ''D'' None)))),
          Page ''W'' (Some (Page ''D'' None)), Page ''D'' None]]\<rparr>"
section \<open>Properties of the set operations\<close>


lemma names_simps [simp]:
  "names [] = {}" "names (x # xs) = insert (getName x) (names xs)"
  "names (xs @ ys) = names xs \<union> names ys"
  by (auto simp: names_def)

lemma names_concat: "names (concat xss) = (\<Union>xs \<in> set xss. names xs)"
  by (auto simp: names_def)

lemma in_names: "p \<in> set xs \<Longrightarrow> getName p \<in> names xs"
  by (simp add: names_def)

lemma set_remove_page: "set (remove_page p xs) = {q \<in> set xs. getName q \<noteq> getName p}"
  by (auto simp: remove_page_def)

lemma same_name_same_page:
  "distinct (map getName xs) \<Longrightarrow> p \<in> set xs \<Longrightarrow> q \<in> set xs \<Longrightarrow> getName p = getName q \<Longrightarrow> p = q"
  by (meson distinct_map inj_onD)

lemma set_remove_page_distinct:
  "distinct (map getName xs) \<Longrightarrow> p \<in> set xs \<Longrightarrow> set (remove_page p xs) = set xs - {p}"
  by (auto simp: set_remove_page dest: same_name_same_page)

lemma distinct_remove_page: "distinct (map getName xs) \<Longrightarrow> distinct (map getName (remove_page p xs))"
  by (simp add: remove_page_def distinct_map_filter)

lemma set_difference: "set (difference xs ys) = {p \<in> set xs. getName p \<notin> names ys}"
  by (auto simp: difference_def member_def)

lemma distinct_difference: "distinct (map getName xs) \<Longrightarrow> distinct (map getName (difference xs ys))"
  by (simp add: difference_def distinct_map_filter)

lemma fold_add_page_append:
  "distinct (map getName new) \<Longrightarrow> names new \<inter> names X = {} \<Longrightarrow> fold add_page new X = X @ new"
proof (induction new arbitrary: X)
  case Nil
  then show ?case by simp
next
  case (Cons a new)
  have "\<not> member a X" using Cons.prems(2) by (auto simp: member_def)
  moreover have "names new \<inter> names (X @ [a]) = {}"
    using Cons.prems by (auto simp: names_def)
  ultimately show ?case using Cons by (simp add: add_page_def)
qed

lemma fold_add_page_distinct:
  "distinct (map getName X) \<Longrightarrow> distinct (map getName (fold add_page ys X))"
  by (induction ys arbitrary: X) (auto simp: add_page_def member_def names_def)

lemma fold_add_page_names: "names (fold add_page ys X) = names X \<union> names ys"
  by (induction ys arbitrary: X) (auto simp: add_page_def member_def)

lemma fold_add_page_set: "set (fold add_page ys X) \<subseteq> set X \<union> set ys"
proof (induction ys arbitrary: X)
  case Nil
  then show ?case by simp
next
  case (Cons a ys)
  have "set (add_page a X) \<subseteq> set X \<union> {a}" by (auto simp: add_page_def)
  with Cons[of "add_page a X"] show ?case by auto
qed

lemma distinct_getChildren: "distinct (map getName (getChildren ev d p))"
  by (simp add: getChildren_def fold_add_page_distinct)

lemma names_getChildren: "names (getChildren ev d p) = set (neighbors ev d (getName p))"
  by (simp add: getChildren_def fold_add_page_names) (force simp: names_def)

lemma set_getChildren:
  "c \<in> set (getChildren ev d p) \<Longrightarrow> getParent c = Some p \<and> getName c \<in> set (neighbors ev d (getName p))"
  using fold_add_page_set[of "map (\<lambda>n. Page n (Some p)) (neighbors ev d (getName p))" "[]"]
  by (auto simp: getChildren_def)


section \<open>One call of explore\<close>

lemma set_nth_concat: "i < length xss \<Longrightarrow> set (xss ! i) \<subseteq> set (concat xss)"
  using nth_mem by fastforce

lemma set_last_concat: "xss \<noteq> [] \<Longrightarrow> set (last xss) \<subseteq> set (concat xss)"
  using last_in_set by fastforce

lemma tree_inv_queue_sub: "tree_inv t \<Longrightarrow> set (queue t) \<subseteq> set (concat (levels t))"
proof -
  assume a: "tree_inv t"
  then have "queueLevel t < length (levels t)" by (auto simp: tree_inv_def)
  then have "set (levels t ! queueLevel t) \<subseteq> set (concat (levels t))" by (rule set_nth_concat)
  with a show ?thesis by (auto simp: tree_inv_def)
qed

lemma tree_inv_endpoints_sub: "tree_inv t \<Longrightarrow> set (endpoints t) \<subseteq> set (concat (levels t))"
proof -
  assume a: "tree_inv t"
  then have "levels t \<noteq> []" by (simp add: tree_inv_def)
  then have "set (last (levels t)) \<subseteq> set (concat (levels t))" by (rule set_last_concat)
  moreover have "set (endpoints t) \<subseteq> set (queue t) \<union> set (last (levels t))"
    using a by (auto simp: tree_inv_def split: if_splits)
  ultimately show ?thesis using tree_inv_queue_sub[OF a] by blast
qed

lemma names_unseen: "names (unseen ev t) \<inter> names (concat (levels t)) = {}"
  by (auto simp: unseen_def names_def set_difference)

lemma distinct_unseen: "distinct (map getName (unseen ev t))"
  by (simp add: unseen_def distinct_difference distinct_getChildren)

lemma explore_eq:
  assumes inv: "tree_inv t" and ne: "queue t \<noteq> []" and pop: "pop ev (queue t) \<in> set (queue t)"
  shows "explore ev t =
           Inr (explored ev t, explored_ok ev t,
                if explored_ok ev t then unseen ev t else [],
                remove_page (pop ev (queue t)) (queue t) = [] \<and> explored_ok ev t)"
proof -
  let ?p = "pop ev (queue t)"
  have mem: "member ?p (endpoints t)"
    using inv pop by (auto simp: tree_inv_def member_def names_def)
  have nn: "levels t \<noteq> []" using inv by (simp add: tree_inv_def)
  have ql: "Suc (queueLevel t) = length (levels t) \<or> queueLevel t + 2 = length (levels t)"
    using inv by (simp add: tree_inv_def)
  have d: "distinct (map getName (unseen ev t))" by (rule distinct_unseen)
  have e1: "fold add_page (unseen ev t) (remove_page ?p (endpoints t)) = remove_page ?p (endpoints t) @ unseen ev t"
  proof (rule fold_add_page_append[OF d])
    have "names (remove_page ?p (endpoints t)) \<subseteq> names (concat (levels t))"
      using tree_inv_endpoints_sub[OF inv] by (auto simp: names_def set_remove_page)
    then show "names (unseen ev t) \<inter> names (remove_page ?p (endpoints t)) = {}"
      using names_unseen[of ev t] by blast
  qed
  have e2: "fold add_page (unseen ev t) (last (levels t)) = last (levels t) @ unseen ev t"
  proof (rule fold_add_page_append[OF d])
    have "names (last (levels t)) \<subseteq> names (concat (levels t))"
      using set_last_concat[OF nn] by (auto simp: names_def)
    then show "names (unseen ev t) \<inter> names (last (levels t)) = {}"
      using names_unseen[of ev t] by blast
  qed
  have e3: "fold add_page (unseen ev t) [] = unseen ev t"
    using fold_add_page_append[OF d, of "[]"] by simp
  have U: "difference (getChildren ev (isStarting t) ?p) (concat (levels t)) = unseen ev t"
    by (simp add: unseen_def)
  have bl: "butlast (levels t) @ [last (levels t)] = levels t" using nn by simp
  have len: "Suc (queueLevel t) < length (grown ev t)"
    using ql nn by (auto simp: grown_def)
  have g1: "Suc (queueLevel t) = length (levels t) \<Longrightarrow> grown ev t = levels t @ [unseen ev t]"
    by (simp add: grown_def)
  have g2: "Suc (queueLevel t) \<noteq> length (levels t) \<Longrightarrow> grown ev t = butlast (levels t) @ [last (levels t) @ unseen ev t]"
    by (simp add: grown_def)
  show ?thesis
  proof (cases "Suc (queueLevel t) = length (levels t)")
    case True
    show ?thesis
      using ne mem True len e1 e3
      by (auto simp: explore_def explored_def explored_ok_def Let_def U g1[OF True] intro!: tree.equality)
  next
    case False
    show ?thesis
      using ne mem False len e1 e2 nn bl
      by (auto simp: explore_def explored_def explored_ok_def Let_def U g2[OF False] intro!: tree.equality)
  qed
qed

lemma levels_shape:
  assumes "tree_inv t"
  obtains (boundary) Ls Lq where "levels t = Ls @ [Lq]" "length Ls = queueLevel t"
    | (inside) Ls Lq Ll where "levels t = Ls @ [Lq, Ll]" "length Ls = queueLevel t"
proof -
  from assms consider "Suc (queueLevel t) = length (levels t)" | "queueLevel t + 2 = length (levels t)"
    by (auto simp: tree_inv_def)
  then show thesis
  proof cases
    case 1
    then have "levels t = take (queueLevel t) (levels t) @ [levels t ! queueLevel t]"
      by (metis lessI take_Suc_conv_app_nth take_all order_refl)
    moreover have "length (take (queueLevel t) (levels t)) = queueLevel t" using 1 by simp
    ultimately show thesis using boundary by blast
  next
    case 2
    then have a: "take (Suc (queueLevel t)) (levels t) = take (queueLevel t) (levels t) @ [levels t ! queueLevel t]"
      by (simp add: take_Suc_conv_app_nth)
    have "levels t = take (Suc (queueLevel t)) (levels t) @ [levels t ! Suc (queueLevel t)]"
      using 2 by (metis Suc_eq_plus1 add_2_eq_Suc' lessI take_Suc_conv_app_nth take_all order_refl add_Suc_right)
    then have "levels t = take (queueLevel t) (levels t) @ [levels t ! queueLevel t, levels t ! Suc (queueLevel t)]"
      using a by simp
    moreover have "length (take (queueLevel t) (levels t)) = queueLevel t" using 2 by simp
    ultimately show thesis using inside by blast
  qed
qed

lemma distinct_names_append:
  "distinct (map getName (xs @ ys)) \<longleftrightarrow>
     distinct (map getName xs) \<and> distinct (map getName ys) \<and> names xs \<inter> names ys = {}"
  by (auto simp: names_def)

lemma set_remove_page_sub:
  assumes "distinct (map getName ys)" "set xs \<subseteq> set ys" "p \<in> set ys"
  shows "set (remove_page p xs) = set xs - {p}"
  using assms same_name_same_page[OF assms(1)] by (auto simp: set_remove_page)

lemma queue_single:
  assumes "distinct (map getName xs)" "p \<in> set q" "set q \<subseteq> set xs" "remove_page p q = []"
  shows "set q = {p}"
proof -
  have "\<And>x. x \<in> set q \<Longrightarrow> getName x = getName p"
    using assms(4) by (auto simp: remove_page_def filter_empty_conv)
  then show ?thesis using assms same_name_same_page[OF assms(1)] by blast
qed

lemma tree_inv_explored:
  assumes inv: "tree_inv t" and ne: "queue t \<noteq> []" and pop: "pop ev (queue t) \<in> set (queue t)"
  shows "tree_inv (explored ev t)"
proof -
  let ?p = "pop ev (queue t)"
  let ?U = "unseen ev t"
  have dU: "distinct (map getName ?U)" by (rule distinct_unseen)
  have nU: "names ?U \<inter> names (concat (levels t)) = {}" by (rule names_unseen)
  have dL: "distinct (map getName (concat (levels t)))" using inv by (simp add: tree_inv_def)
  have qs: "set (queue t) \<subseteq> set (levels t ! queueLevel t)" using inv by (simp add: tree_inv_def)
  have hd: "hd (levels t) = [root t]" using inv by (simp add: tree_inv_def)
  from inv show ?thesis
  proof (cases rule: levels_shape)
    case (boundary Ls Lq)
    have Lq: "levels t ! queueLevel t = Lq" using boundary by (simp add: nth_append)
    have q: "set (queue t) = set Lq" using inv boundary Lq by (simp add: tree_inv_def)
    have e: "set (endpoints t) = set Lq" using inv boundary q by (simp add: tree_inv_def)
    have pL: "?p \<in> set (concat (levels t))" using pop tree_inv_queue_sub[OF inv] by blast
    note rm = set_remove_page_sub[OF dL tree_inv_endpoints_sub[OF inv] pL]
      set_remove_page_sub[OF dL tree_inv_queue_sub[OF inv] pL]
    have g: "grown ev t = Ls @ [Lq, ?U]" using boundary by (simp add: grown_def)
    have hd': "hd (Ls @ [Lq, ?U]) = [root t]" using hd boundary by (cases Ls) auto
    have "concat (Ls @ [Lq, ?U]) = concat (levels t) @ ?U" using boundary by simp
    then have d': "distinct (map getName (concat (Ls @ [Lq, ?U])))"
      using dL dU nU by (simp only: distinct_names_append) blast
    show ?thesis
    proof (cases "remove_page ?p (queue t) = []")
      case True
      have "set (queue t) = {?p}" 
        using queue_single[OF dL pop _ True] tree_inv_queue_sub[OF inv] by simp
      then show ?thesis using True boundary g hd' d' e q 
        by (auto simp: tree_inv_def explored_def Let_def nth_append rm)
    next
      case False
      then show ?thesis using boundary g hd' d' e q pop
        by (auto simp: tree_inv_def explored_def Let_def nth_append rm)
    qed
  next
    case (inside Ls Lq Ll)
    have Lq: "levels t ! queueLevel t = Lq" using inside by (simp add: nth_append)
    have q: "set (queue t) \<subseteq> set Lq" using qs Lq by simp
    have e: "set (endpoints t) = set (queue t) \<union> set Ll" using inv inside by (simp add: tree_inv_def)
    have pL: "?p \<in> set (concat (levels t))" using pop tree_inv_queue_sub[OF inv] by blast
    note rm = set_remove_page_sub[OF dL tree_inv_endpoints_sub[OF inv] pL]
      set_remove_page_sub[OF dL tree_inv_queue_sub[OF inv] pL]
    have g: "grown ev t = Ls @ [Lq, Ll @ ?U]" using inside by (simp add: grown_def butlast_append)
    have hd': "hd (Ls @ [Lq, Ll @ ?U]) = [root t]" using hd inside by (cases Ls) auto
    have "concat (Ls @ [Lq, Ll @ ?U]) = concat (levels t) @ ?U" using inside by simp
    then have d': "distinct (map getName (concat (Ls @ [Lq, Ll @ ?U])))"
      using dL dU nU by (simp only: distinct_names_append) blast
    have "names Lq \<inter> names Ll = {}" using dL inside by (simp add: names_def)
    then have pn: "?p \<notin> set Ll" using pop q by (auto simp: names_def)
    show ?thesis
    proof (cases "remove_page ?p (queue t) = []")
      case True
      have "set (queue t) = {?p}" 
        using queue_single[OF dL pop _ True] tree_inv_queue_sub[OF inv] by simp
      then show ?thesis using True inside g hd' d' e q pn
        by (auto simp: tree_inv_def explored_def Let_def nth_append rm)
    next
      case False
      then show ?thesis using inside g hd' d' e q pop pn
        by (auto simp: tree_inv_def explored_def Let_def nth_append rm)
    qed
  qed
qed

section \<open>Reachable trees\<close>

lemma tree_inv_Tree: "tree_inv (Tree r starting)"
  by (simp add: tree_inv_def Tree_def)

lemma explore_Inr_explored:
  assumes "tree_inv t" "queue t \<noteq> []" "pop ev (queue t) \<in> set (queue t)"
    and "explore ev t = Inr (t', ok, new, lastInQueue)"
  shows "t' = explored ev t" "ok = explored_ok ev t"
  using explore_eq[OF assms(1-3)] assms(4) by simp_all

lemma queue_explored_ok:
  "explored_ok ev t \<Longrightarrow> queue (explored ev t) \<noteq> []"
  by (auto simp: explored_ok_def explored_def Let_def)

lemma tree_reach_inv:
  assumes ok: "sched_ok ev" and r: "tree_reach ev t"
  shows "tree_inv t \<and> queue t \<noteq> []"
  using r
proof (induction rule: tree_reach.induct)
  case (reach_Tree r starting)
  show ?case by (simp add: tree_inv_Tree) (simp add: Tree_def)
next
  case (reach_explore t t' new lastInQueue)
  then have inv: "tree_inv t" and ne: "queue t \<noteq> []" by simp_all
  have pop: "pop ev (queue t) \<in> set (queue t)" using ok ne by (simp add: sched_ok_def)
  have t': "t' = explored ev t" and eo: "explored_ok ev t"
    using explore_Inr_explored[OF inv ne pop reach_explore.hyps(2)] by simp_all
  show ?case using tree_inv_explored[OF inv ne pop] queue_explored_ok[OF eo] t' by simp
qed

lemma sched_ok_ABCD: "sched_ok ev_ABCD"
  by (simp add: sched_ok_def ev_ABCD_def)

lemma explore_ABCD_0:
  "explore ev_ABCD (Tree (Page ''A'' None) True) =
     Inr (tree_ABCD_1, True,
          [Page ''B'' (Some (Page ''A'' None)), Page ''C'' (Some (Page ''A'' None))], True)"
  by (simp add: explore_def Tree_def ev_ABCD_def nb_ABCD_def tree_ABCD_1_def Let_def
      remove_page_def member_def names_def getChildren_def add_page_def difference_def)

lemma explore_ABCD_1:
  "explore ev_ABCD tree_ABCD_1 =
     Inr (tree_ABCD_2, True, [Page ''D'' (Some (Page ''B'' (Some (Page ''A'' None))))], False)"
  by (simp add: explore_def ev_ABCD_def nb_ABCD_def tree_ABCD_1_def tree_ABCD_2_def Let_def
      remove_page_def member_def names_def getChildren_def add_page_def difference_def)

lemma tree_reach_ABCD_1: "tree_reach ev_ABCD tree_ABCD_1"
  using reach_explore[OF reach_Tree explore_ABCD_0] .

lemma tree_reach_ABCD_2: "tree_reach ev_ABCD tree_ABCD_2"
  using reach_explore[OF tree_reach_ABCD_1 explore_ABCD_1] .

text \<open>
  C6. In every tree reached from \<open>Tree\<close> by calls of \<open>explore\<close> that returned \<open>ok = True\<close>,
  the queue is not empty, the page popped from it is in the queue and in the endpoints,
  and \<open>explore\<close> returns a triple and raises nothing; when it returns \<open>ok = False\<close> the
  triple is \<open>(False, {}, False)\<close>; the queue level of the tree it leaves is an index of
  \<open>levels\<close>.
\<close>

theorem explore_never_raises:
  assumes "sched_ok ev" and "tree_reach ev t"
  shows "queue t \<noteq> [] \<and> pop ev (queue t) \<in> set (queue t)
         \<and> member (pop ev (queue t)) (endpoints t)
         \<and> (\<exists>t' ok new lastInQueue.
               explore ev t = Inr (t', ok, new, lastInQueue)
               \<and> (\<not> ok \<longrightarrow> new = [] \<and> \<not> lastInQueue)
               \<and> queueLevel t' < length (levels t'))"
proof -
  have inv: "tree_inv t" and ne: "queue t \<noteq> []" using tree_reach_inv[OF assms] by simp_all
  have pop: "pop ev (queue t) \<in> set (queue t)" using assms(1) ne by (simp add: sched_ok_def)
  have mem: "member (pop ev (queue t)) (endpoints t)"
    using inv pop by (auto simp: tree_inv_def member_def names_def)
  have "queueLevel (explored ev t) < length (levels (explored ev t))"
    using tree_inv_explored[OF inv ne pop] by (auto simp: tree_inv_def)
  then show ?thesis using ne pop mem explore_eq[OF inv ne pop] by simp
qed

theorem explore_never_raises_witness:
  "sched_ok ev_ABCD \<and> tree_reach ev_ABCD tree_ABCD_1
   \<and> explore ev_ABCD tree_ABCD_1 =
       Inr (tree_ABCD_2, True, [Page ''D'' (Some (Page ''B'' (Some (Page ''A'' None))))], False)
   \<and> queueLevel tree_ABCD_2 < length (levels tree_ABCD_2)"
  using explore_never_raises[OF sched_ok_ABCD tree_reach_ABCD_1]
  by (auto simp: sched_ok_ABCD tree_reach_ABCD_1 explore_ABCD_1)

section \<open>The endpoints of a tree\<close>

lemma endpoints_levels:
  assumes "tree_inv t"
  shows "set (endpoints t) \<subseteq> set (levels t ! queueLevel t) \<union> set (last (levels t))
         \<and> (Suc (queueLevel t) = length (levels t) \<longrightarrow> set (endpoints t) = set (last (levels t)))"
proof -
  have "Suc (queueLevel t) = length (levels t) \<Longrightarrow> levels t ! queueLevel t = last (levels t)"
    by (metis diff_Suc_1 last_conv_nth length_0_conv nat.distinct(1))
  then show ?thesis using assms by (auto simp: tree_inv_def split: if_splits)
qed

text \<open>
  C7, as stated, fails: after two calls of \<open>explore\<close> on the graph \<open>A \<rightarrow> B, C\<close>,
  \<open>B \<rightarrow> D\<close> the endpoints are \<open>C\<close> and \<open>D\<close>, and the deepest level holds \<open>D\<close> only.
\<close>

theorem endpoints_not_in_deepest_level:
  "tree_reach ev_ABCD tree_ABCD_2
   \<and> \<not> names (endpoints tree_ABCD_2)
         \<subseteq> names (levels tree_ABCD_2 ! (length (levels tree_ABCD_2) - 1))"
  by (simp add: tree_reach_ABCD_2) (simp add: tree_ABCD_2_def names_def)

text \<open>
  C7, amended. In every reachable tree, and in the tree that any call of \<open>explore\<close>
  leaves, the endpoints are pages of the queue level or of the deepest level, and they
  are exactly the deepest level when the queue level is the deepest level.
\<close>

theorem endpoints_queue_level_or_deepest:
  assumes "sched_ok ev" and "tree_reach ev t"
  shows "set (endpoints t) \<subseteq> set (levels t ! queueLevel t) \<union> set (last (levels t))
         \<and> (Suc (queueLevel t) = length (levels t) \<longrightarrow> set (endpoints t) = set (last (levels t)))
         \<and> (\<forall>t' ok new lastInQueue. explore ev t = Inr (t', ok, new, lastInQueue) \<longrightarrow>
               set (endpoints t') \<subseteq> set (levels t' ! queueLevel t') \<union> set (last (levels t'))
               \<and> (Suc (queueLevel t') = length (levels t') \<longrightarrow>
                     set (endpoints t') = set (last (levels t'))))"
proof -
  have inv: "tree_inv t" and ne: "queue t \<noteq> []" using tree_reach_inv[OF assms] by simp_all
  have pop: "pop ev (queue t) \<in> set (queue t)" using assms(1) ne by (simp add: sched_ok_def)
  have "\<And>t' ok new lastInQueue. explore ev t = Inr (t', ok, new, lastInQueue) \<Longrightarrow> tree_inv t'"
    using explore_eq[OF inv ne pop] tree_inv_explored[OF inv ne pop] by simp
  then show ?thesis using endpoints_levels[OF inv] endpoints_levels by blast
qed

theorem endpoints_queue_level_or_deepest_witness:
  "sched_ok ev_ABCD \<and> tree_reach ev_ABCD tree_ABCD_1
   \<and> set (endpoints tree_ABCD_1)
       \<subseteq> set (levels tree_ABCD_1 ! queueLevel tree_ABCD_1) \<union> set (last (levels tree_ABCD_1))
   \<and> set (endpoints tree_ABCD_1) = set (last (levels tree_ABCD_1))
   \<and> set (endpoints tree_ABCD_2)
       \<subseteq> set (levels tree_ABCD_2 ! queueLevel tree_ABCD_2) \<union> set (last (levels tree_ABCD_2))"
proof -
  have "Suc (queueLevel tree_ABCD_1) = length (levels tree_ABCD_1)"
    by (simp add: tree_ABCD_1_def)
  then show ?thesis
    using endpoints_queue_level_or_deepest[OF sched_ok_ABCD tree_reach_ABCD_1] explore_ABCD_1
    by (auto simp: sched_ok_ABCD tree_reach_ABCD_1)
qed

section \<open>Calls of search that explore nothing, or a page without links\<close>

lemma py_slice_same [simp]: "py_slice a a xs = []"
  by (simp add: py_slice_def Let_def)

lemma py_slice_Nil [simp]: "py_slice a b [] = []"
  by (simp add: py_slice_def Let_def)

lemma search_loop_done: "\<not> searchIndex g < targetIndex \<Longrightarrow> search_loop ev targetIndex g = Some (Inr (Finished, g))"
  by (subst search_loop.simps) simp

lemma sched_ok_none: "sched_ok ev_none"
  by (simp add: sched_ok_def ev_none_def)

text \<open>
  C10. \<open>search(0)\<close> returns the empty list and leaves the game as it was: the loop of
  \<open>search\<close> ends at once, before any call of \<open>explore\<close>.
\<close>

theorem search_zero:
  "search ev 0 g =
     Some (Inr (g, [], if endpoints (startTree g) = [] then NoPathsStarting
                       else if endpoints (endTree g) = [] then NoPathsEnding else Finished))
   \<and> search_loop ev (searchIndex g + 0) g = Some (Inr (Finished, g))"
  by (simp add: search_def Let_def search_loop_done)

theorem search_zero_witness:
  "search ev_none 0 (Game ''A'' ''B'') = Some (Inr (Game ''A'' ''B'', [], Finished))
   \<and> search_loop ev_none 0 (Game ''A'' ''B'') = Some (Inr (Finished, Game ''A'' ''B''))"
  using search_zero[of ev_none "Game ''A'' ''B''"]
  by (simp add: Game_def Tree_def)

lemma explore_no_links:
  assumes "pop ev [r] = r" "set (neighbors ev starting (getName r)) \<subseteq> {getName r}"
  shows "explore ev (Tree r starting) = Inr (exhausted r starting, False, [], False)"
proof -
  have "difference (getChildren ev starting r) [r] = []"
    using assms(2) names_getChildren[of ev starting r]
    by (auto simp: difference_def member_def filter_empty_conv names_def)
  then show ?thesis using assms(1)
    by (simp add: explore_def Tree_def exhausted_def Let_def remove_page_def member_def)
qed

lemma explore_loop_no_links:
  assumes "pop ev [Page s None] = Page s None" "set (neighbors ev True s) \<subseteq> {s}" "0 < count"
  shows "explore_loop ev True count False (Game s e) =
           Some (Inr (False, (Game s e)\<lparr>startTree := exhausted (Page s None) True\<rparr>))"
  using assms explore_no_links[of ev "Page s None" True]
  by (subst explore_loop.simps) (simp add: Game_def side_tree_def set_side_tree_def)

lemma choose_start_Game: "choose_start (Game s e)"
  by (simp add: choose_start_def Game_def Tree_def)

lemma search_no_links:
  assumes "pop ev [Page s None] = Page s None" "set (neighbors ev True s) \<subseteq> {s}" "0 < count"
  shows "search ev count (Game s e) =
           Some (Inr ((Game s e)\<lparr>startTree := exhausted (Page s None) True\<rparr>, [], NoPathsStarting))"
proof -
  let ?g = "(Game s e)\<lparr>searchIndex := 0\<rparr>"
  have g: "?g = Game s e" by (simp add: Game_def)
  have "search_loop ev count (Game s e) =
          Some (Inr (NoPathsStarting, (Game s e)\<lparr>startTree := exhausted (Page s None) True\<rparr>))"
    using assms(3) explore_loop_no_links[OF assms] choose_start_Game[of s e]
    by (subst search_loop.simps) (simp add: Game_def)
  moreover have "endpoints (startTree (Game s e)) \<noteq> []" "endpoints (endTree (Game s e)) \<noteq> []"
    "searchIndex (Game s e) = 0" "paths (Game s e) = []"
    by (simp_all add: Game_def Tree_def)
  ultimately show ?thesis using g
    by (simp add: search_def Let_def) (simp add: Game_def)
qed

lemma search_exhausted:
  assumes "endpoints (startTree g) = []"
  shows "search ev count g = Some (Inr (g, [], NoPathsStarting))"
  using assms by (simp add: search_def Let_def)

lemma search_Game_nonpositive:
  assumes "count \<le> 0"
  shows "search ev count (Game s e) = Some (Inr (Game s e, [], Finished))"
proof -
  have g: "(Game s e)\<lparr>searchIndex := 0\<rparr> = Game s e" by (simp add: Game_def)
  have l: "search_loop ev count (Game s e) = Some (Inr (Finished, Game s e))"
    using assms by (intro search_loop_done) (simp add: Game_def)
  have f: "endpoints (startTree (Game s e)) \<noteq> []" "endpoints (endTree (Game s e)) \<noteq> []"
    "searchIndex (Game s e) = 0" "paths (Game s e) = []"
    by (simp_all add: Game_def Tree_def)
  show ?thesis using assms
    by (simp add: search_def Let_def min_def f g l)
qed

lemma game_reach_no_links:
  assumes ok: "sched_ok ev" and nb: "\<forall>forward n. neighbors ev forward n = []"
    and r: "game_reach ev s e g"
  shows "g = Game s e \<or> g = (Game s e)\<lparr>startTree := exhausted (Page s None) True\<rparr>"
  using r
proof (induction rule: game_reach.induct)
  case reach_Game
  show ?case by simp
next
  case (reach_search g count g' res out)
  have pop: "pop ev [Page s None] = Page s None" using ok by (auto simp: sched_ok_def dest: spec[of _ "[Page s None]"])
  have nbs: "set (neighbors ev True s) \<subseteq> {s}" using nb by simp
  from reach_search.IH show ?case
  proof
    assume g: "g = Game s e"
    show ?thesis
    proof (cases "0 < count")
      case True
      then show ?thesis using search_no_links[OF pop nbs True, of e] reach_search.hyps(2) g by simp
    next
      case False
      then show ?thesis using search_Game_nonpositive[of count ev s e] reach_search.hyps(2) g by simp
    qed
  next
    assume g: "g = (Game s e)\<lparr>startTree := exhausted (Page s None) True\<rparr>"
    then have "endpoints (startTree g) = []" by (simp add: exhausted_def)
    then show ?thesis using search_exhausted[of g ev count] reach_search.hyps(2) g by simp
  qed
qed

text \<open>
  C8. When the lookup returns no name for any page, every call \<open>search(count)\<close> with
  \<open>count > 0\<close>, on a new game or after any earlier calls, returns: it returns the empty
  list, with the outcome that the starting tree has nothing left to explore, and
  raises nothing.
\<close>

theorem search_no_neighbors:
  assumes "sched_ok ev" and "\<forall>forward n. neighbors ev forward n = []"
    and "game_reach ev s e g" and "0 < count"
  shows "search ev count g =
           Some (Inr ((Game s e)\<lparr>startTree := exhausted (Page s None) True\<rparr>, [], NoPathsStarting))"
proof -
  have pop: "pop ev [Page s None] = Page s None"
    using assms(1) by (auto simp: sched_ok_def dest: spec[of _ "[Page s None]"])
  have nbs: "set (neighbors ev True s) \<subseteq> {s}" using assms(2) by simp
  from game_reach_no_links[OF assms(1-3)] show ?thesis
  proof
    assume "g = Game s e"
    then show ?thesis using search_no_links[OF pop nbs assms(4), of e] by simp
  next
    assume g: "g = (Game s e)\<lparr>startTree := exhausted (Page s None) True\<rparr>"
    then have "endpoints (startTree g) = []" by (simp add: exhausted_def)
    then show ?thesis using search_exhausted[of g ev count] g by simp
  qed
qed

theorem search_no_neighbors_witness:
  "sched_ok ev_none \<and> game_reach ev_none ''A'' ''B'' (Game ''A'' ''B'') \<and> (0::int) < 3
   \<and> search ev_none 3 (Game ''A'' ''B'') =
       Some (Inr ((Game ''A'' ''B'')\<lparr>startTree := exhausted (Page ''A'' None) True\<rparr>, [],
                  NoPathsStarting))"
proof -
  have nb: "\<forall>forward n. neighbors ev_none forward n = []" by (simp add: ev_none_def)
  have c: "(0::int) < 3" by simp
  show ?thesis
    using search_no_neighbors[OF sched_ok_none nb reach_Game[of ev_none "''A''" "''B''"] c]
    by (simp add: sched_ok_none reach_Game)
qed

text \<open>
  C1, as stated, fails: on a game whose start and goal are both \<open>A\<close>, a page without
  links, \<open>search(1)\<close> explores the root of the starting tree and returns no path.
\<close>

theorem search_same_page_no_path:
  "search ev_none 1 (Game ''A'' ''A'') =
     Some (Inr ((Game ''A'' ''A'')\<lparr>startTree := exhausted (Page ''A'' None) True\<rparr>, [],
                NoPathsStarting))"
  by (rule search_no_links) (simp_all add: ev_none_def)

section \<open>The levels after a call of explore\<close>

lemma length_grown: "tree_inv t \<Longrightarrow> length (grown ev t) = queueLevel t + 2"
  by (auto simp: tree_inv_def grown_def)

lemma grown_nth_cases:
  assumes "tree_inv t" "i < length (grown ev t)" "c \<in> set (grown ev t ! i)"
  shows "(i < length (levels t) \<and> c \<in> set (levels t ! i))
         \<or> (i = Suc (queueLevel t) \<and> c \<in> set (unseen ev t))"
  using assms(1)
proof (cases rule: levels_shape)
  case (boundary Ls Lq)
  then have "grown ev t = Ls @ [Lq, unseen ev t]" by (simp add: grown_def)
  then show ?thesis using assms(2,3) boundary
    by (auto simp: nth_append nth_Cons split: if_splits nat.splits)
next
  case (inside Ls Lq Ll)
  then have "grown ev t = Ls @ [Lq, Ll @ unseen ev t]" by (simp add: grown_def butlast_append)
  then show ?thesis using assms(2,3) inside
    by (auto simp: nth_append nth_Cons split: if_splits nat.splits)
qed

lemma grown_nth_mono:
  assumes "tree_inv t" "i < length (levels t)"
  shows "set (levels t ! i) \<subseteq> set (grown ev t ! i)"
  using assms(1)
proof (cases rule: levels_shape)
  case (boundary Ls Lq)
  then have "grown ev t = Ls @ [Lq, unseen ev t]" by (simp add: grown_def)
  then show ?thesis using assms(2) boundary
    by (auto simp: nth_append nth_Cons split: if_splits nat.splits)
next
  case (inside Ls Lq Ll)
  then have "grown ev t = Ls @ [Lq, Ll @ unseen ev t]" by (simp add: grown_def butlast_append)
  then show ?thesis using assms(2) inside
    by (auto simp: nth_append nth_Cons split: if_splits nat.splits)
qed

lemma unseen_in_grown:
  assumes "tree_inv t"
  shows "set (unseen ev t) \<subseteq> set (grown ev t ! Suc (queueLevel t))"
  using assms(1)
proof (cases rule: levels_shape)
  case (boundary Ls Lq)
  then have "grown ev t = Ls @ [Lq, unseen ev t]" by (simp add: grown_def)
  then show ?thesis using boundary by (auto simp: nth_append)
next
  case (inside Ls Lq Ll)
  then have "grown ev t = Ls @ [Lq, Ll @ unseen ev t]" by (simp add: grown_def butlast_append)
  then show ?thesis using inside by (auto simp: nth_append)
qed

lemma last_grown:
  assumes "tree_inv t"
  shows "last (grown ev t) = grown ev t ! Suc (queueLevel t)"
  using length_grown[OF assms, of ev]
  by (metis Suc_eq_plus1 add_2_eq_Suc' add_diff_cancel_right' last_conv_nth length_0_conv nat.distinct(1) add_Suc_right)

lemma concat_grown: "tree_inv t \<Longrightarrow> concat (grown ev t) = concat (levels t) @ unseen ev t"
proof -
  assume "tree_inv t"
  then have "levels t \<noteq> []" by (simp add: tree_inv_def)
  then have "concat (butlast (levels t)) @ last (levels t) = concat (levels t)"
    by (metis append_butlast_last_id concat.simps(1,2) concat_append append_Nil2)
  then show ?thesis by (simp add: grown_def)
qed

lemma levels_explored [simp]: "levels (explored ev t) = grown ev t"
  and root_explored [simp]: "root (explored ev t) = root t"
  and isStarting_explored [simp]: "isStarting (explored ev t) = isStarting t"
  by (simp_all add: explored_def Let_def)

lemma unseen_child:
  assumes "c \<in> set (unseen ev t)"
  shows "getParent c = Some (pop ev (queue t))"
    and "getName c \<in> set (neighbors ev (isStarting t) (getName (pop ev (queue t))))"
    and "getName c \<notin> names (concat (levels t))"
  using assms set_getChildren[of c ev "isStarting t" "pop ev (queue t)"]
  by (auto simp: unseen_def set_difference)

lemma ancestors_parent: "getParent c = Some p \<Longrightarrow> ancestors c = p # ancestors p"
  by (cases c) auto

lemma popped_in_level:
  assumes "tree_inv t" "pop ev (queue t) \<in> set (queue t)"
  shows "pop ev (queue t) \<in> set (levels t ! queueLevel t)" "queueLevel t < length (levels t)"
  using assms by (auto simp: tree_inv_def)

lemma chain_inv_explored:
  assumes inv: "tree_inv t" and ch: "chain_inv ev t" and pop: "pop ev (queue t) \<in> set (queue t)"
  shows "chain_inv ev (explored ev t)"
proof -
  let ?p = "pop ev (queue t)"
  have p: "length (ancestors ?p) = queueLevel t" "linked ev (isStarting t) (?p # ancestors ?p)"
    "last (?p # ancestors ?p) = root t"
    using ch popped_in_level[OF inv pop] unfolding chain_inv_def by blast+
  have "length (ancestors c) = i \<and> linked ev (isStarting t) (c # ancestors c)
        \<and> last (c # ancestors c) = root t"
    if "i < length (grown ev t)" "c \<in> set (grown ev t ! i)" for i c
    using grown_nth_cases[OF inv that]
  proof
    assume "i < length (levels t) \<and> c \<in> set (levels t ! i)"
    then show ?thesis using ch unfolding chain_inv_def by blast
  next
    assume a: "i = Suc (queueLevel t) \<and> c \<in> set (unseen ev t)"
    then have "ancestors c = ?p # ancestors ?p"
      using unseen_child(1)[of c ev t] by (simp add: ancestors_parent)
    then show ?thesis using a p unseen_child(2)[of c ev t] by simp
  qed
  then show ?thesis using ch unfolding chain_inv_def levels_explored root_explored isStarting_explored by blast
qed

lemma chain_inv_Tree: "chain_inv ev (Tree (Page n None) starting)"
  by (simp add: chain_inv_def Tree_def)

section \<open>Breadth-first levels\<close>

lemma levels_disjoint:
  assumes d: "distinct (map getName (concat xss))" and ij: "i < j" "j < length xss"
  shows "names (xss ! i) \<inter> names (xss ! j) = {}"
proof -
  have "xss = take j xss @ xss ! j # drop (Suc j) xss" using ij(2) by (rule id_take_nth_drop)
  then have "concat xss = concat (take j xss) @ (xss ! j @ concat (drop (Suc j) xss))"
    by (metis concat.simps(2) concat_append)
  then have "distinct (map getName (concat (take j xss) @ (xss ! j @ concat (drop (Suc j) xss))))"
    using d by simp
  then have "names (concat (take j xss)) \<inter> names (xss ! j @ concat (drop (Suc j) xss)) = {}"
    by (simp only: distinct_names_append)
  then have "names (concat (take j xss)) \<inter> names (xss ! j) = {}"
    by (simp only: names_simps) blast
  moreover have "set (xss ! i) \<subseteq> set (concat (take j xss))"
    using set_nth_concat[of i "take j xss"] ij by simp
  then have "names (xss ! i) \<subseteq> names (concat (take j xss))"
    unfolding names_def by (rule image_mono)
  ultimately show ?thesis by blast
qed

lemma levels_same_name:
  assumes d: "distinct (map getName (concat xss))" and "i < length xss" "j < length xss"
    and "n \<in> names (xss ! i)" "n \<in> names (xss ! j)"
  shows "i = j"
proof (rule ccontr)
  assume "i \<noteq> j"
  then consider "i < j" | "j < i" by linarith
  then show False
    using levels_disjoint[OF d, of i j] levels_disjoint[OF d, of j i] assms(2-5) by cases auto
qed

lemma bfs_inv_Tree: "bfs_inv ev (Tree r starting)"
  by (simp add: bfs_inv_def Tree_def)

lemma queue_explored:
  "queue (explored ev t) =
     (if remove_page (pop ev (queue t)) (queue t) = [] then grown ev t ! Suc (queueLevel t)
      else remove_page (pop ev (queue t)) (queue t))"
  and queueLevel_explored:
  "queueLevel (explored ev t) =
     (if remove_page (pop ev (queue t)) (queue t) = [] then Suc (queueLevel t) else queueLevel t)"
  by (simp_all add: explored_def Let_def)

lemma bfs_inv_explored:
  assumes inv: "tree_inv t" and bfs: "bfs_inv ev t" and pop: "pop ev (queue t) \<in> set (queue t)"
  shows "bfs_inv ev (explored ev t)"
proof -
  let ?p = "pop ev (queue t)"
  let ?d = "isStarting t"
  let ?r = "getName (root t)"
  let ?rest = "remove_page ?p (queue t)"
  have dL: "distinct (map getName (concat (levels t)))" using inv by (simp add: tree_inv_def)
  have pl: "?p \<in> set (levels t ! queueLevel t)" "queueLevel t < length (levels t)"
    using popped_in_level[OF inv pop] by simp_all
  have ps: "getName ?p \<in> steps ev ?d ?r (queueLevel t)"
    using bfs pl by (auto simp: bfs_inv_def)
  have len: "length (levels t) \<le> queueLevel t + 2" using inv by (auto simp: tree_inv_def)
  have walk: "getName c \<in> steps ev ?d ?r i"
    if "i < length (grown ev t)" "c \<in> set (grown ev t ! i)" for i c
    using grown_nth_cases[OF inv that]
  proof
    assume "i < length (levels t) \<and> c \<in> set (levels t ! i)"
    then show ?thesis using bfs by (auto simp: bfs_inv_def)
  next
    assume "i = Suc (queueLevel t) \<and> c \<in> set (unseen ev t)"
    then show ?thesis using ps unseen_child(2)[of c ev t] by auto
  qed
  have old: "\<exists>j \<le> Suc i. j < length (grown ev t) \<and> n \<in> names (grown ev t ! j)"
    if "\<exists>j \<le> Suc i. j < length (levels t) \<and> n \<in> names (levels t ! j)" for i n
  proof -
    from that obtain j where j: "j \<le> Suc i" "j < length (levels t)" "n \<in> names (levels t ! j)"
      by blast
    then have "n \<in> names (grown ev t ! j)" using grown_nth_mono[OF inv j(2), of ev]
      by (auto simp: names_def)
    moreover have "j < length (grown ev t)" using j(2) len length_grown[OF inv, of ev] by simp
    ultimately show ?thesis using j(1) by blast
  qed
  have popped: "\<exists>j \<le> Suc (queueLevel t). j < length (grown ev t) \<and> n \<in> names (grown ev t ! j)"
    if "n \<in> set (neighbors ev ?d (getName ?p))" for n
  proof (cases "n \<in> names (concat (levels t))")
    case True
    then obtain xs where "xs \<in> set (levels t)" "n \<in> names xs"
      by (auto simp: names_concat)
    then obtain j where j: "j < length (levels t)" "n \<in> names (levels t ! j)"
      by (metis in_set_conv_nth)
    then have "j \<le> Suc (Suc (queueLevel t))" using len by simp
    have "j \<le> Suc (queueLevel t)" using j(1) len by simp
    then have "\<exists>j \<le> Suc (queueLevel t). j < length (levels t) \<and> n \<in> names (levels t ! j)"
      using j by blast
    then show ?thesis by (rule old)
  next
    case False
    have "n \<in> names (getChildren ev ?d ?p)" using that by (simp add: names_getChildren)
    then have "n \<in> names (unseen ev t)" using False
      by (auto simp: unseen_def names_def set_difference)
    then have "n \<in> names (grown ev t ! Suc (queueLevel t))"
      using unseen_in_grown[OF inv, of ev] by (auto simp: names_def)
    then show ?thesis using length_grown[OF inv, of ev] by auto
  qed
  have closed: "\<exists>j \<le> Suc i. j < length (grown ev t) \<and> n \<in> names (grown ev t ! j)"
    if i: "i < length (grown ev t)" and c: "c \<in> set (grown ev t ! i)"
      and e: "i < queueLevel (explored ev t)
              \<or> (i = queueLevel (explored ev t) \<and> c \<notin> set (queue (explored ev t)))"
      and n: "n \<in> set (neighbors ev ?d (getName c))" for i c n
    using grown_nth_cases[OF inv i c]
  proof
    assume a: "i = Suc (queueLevel t) \<and> c \<in> set (unseen ev t)"
    then have "c \<in> set (grown ev t ! Suc (queueLevel t))" using unseen_in_grown[OF inv, of ev] by blast
    then show ?thesis using a e by (auto simp: queue_explored queueLevel_explored split: if_splits)
  next
    assume a: "i < length (levels t) \<and> c \<in> set (levels t ! i)"
    show ?thesis
    proof (cases "i < queueLevel t \<or> (i = queueLevel t \<and> c \<notin> set (queue t))")
      case True
      then have "\<exists>j \<le> Suc i. j < length (levels t) \<and> n \<in> names (levels t ! j)"
        using bfs a n unfolding bfs_inv_def by blast
      then show ?thesis by (rule old)
    next
      case False
      show ?thesis
      proof (cases "i = queueLevel t")
        case True
        then have cq: "c \<in> set (queue t)" using False by simp
        have "getName c = getName ?p"
        proof (cases "?rest = []")
          case True
          then show ?thesis using cq by (auto simp: remove_page_def filter_empty_conv)
        next
          case False
          then have "c \<notin> set ?rest" using e \<open>i = queueLevel t\<close>
            by (auto simp: queue_explored queueLevel_explored)
          then show ?thesis using cq by (auto simp: set_remove_page)
        qed
        then show ?thesis using popped[of n] n True by simp
      next
        case False
        then have i: "i = Suc (queueLevel t)" using \<open>\<not> (i < queueLevel t \<or> (i = queueLevel t \<and> c \<notin> set (queue t)))\<close> a len by simp
        have "c \<in> set (grown ev t ! Suc (queueLevel t))"
          using grown_nth_mono[OF inv, of i ev] a i by auto
        then show ?thesis using i e by (auto simp: queue_explored queueLevel_explored split: if_splits)
      qed
    qed
  qed
  show ?thesis
    unfolding bfs_inv_def levels_explored root_explored isStarting_explored
    using walk closed by blast
qed

lemma steps_in_levels:
  assumes inv: "tree_inv t" and bfs: "bfs_inv ev t"
  shows "k \<le> queueLevel t \<Longrightarrow> n \<in> steps ev (isStarting t) (getName (root t)) k
         \<Longrightarrow> \<exists>j \<le> k. n \<in> names (levels t ! j)"
proof (induction k arbitrary: n)
  case 0
  have "levels t ! 0 = [root t]" using inv by (auto simp: tree_inv_def hd_conv_nth)
  then show ?case using 0 by simp
next
  case (Suc k)
  from Suc.prems(2) obtain x where x: "x \<in> steps ev (isStarting t) (getName (root t)) k"
    "n \<in> set (neighbors ev (isStarting t) x)" by auto
  from Suc.IH[OF _ x(1)] Suc.prems(1) obtain j where j: "j \<le> k" "x \<in> names (levels t ! j)" by auto
  then obtain p where p: "p \<in> set (levels t ! j)" "getName p = x" by (auto simp: names_def)
  have ql: "queueLevel t < length (levels t)" using inv by (auto simp: tree_inv_def)
  have "j < queueLevel t" "j < length (levels t)" using j(1) Suc.prems(1) ql by simp_all
  then have "\<exists>j' \<le> Suc j. j' < length (levels t) \<and> n \<in> names (levels t ! j')"
    using bfs p x(2) unfolding bfs_inv_def by blast
  then show ?case using j(1) by (meson Suc_le_mono le_trans)
qed

lemma level_is_distance:
  assumes inv: "tree_inv t" and bfs: "bfs_inv ev t"
    and i: "i < length (levels t)" and p: "p \<in> set (levels t ! i)"
  shows "getName p \<in> steps ev (isStarting t) (getName (root t)) i
         \<and> (\<forall>k < i. getName p \<notin> steps ev (isStarting t) (getName (root t)) k)"
proof -
  have dL: "distinct (map getName (concat (levels t)))" using inv by (simp add: tree_inv_def)
  have len: "length (levels t) \<le> queueLevel t + 2" using inv by (auto simp: tree_inv_def)
  have False if k: "k < i" "getName p \<in> steps ev (isStarting t) (getName (root t)) k" for k
  proof -
    have "k \<le> queueLevel t" using k(1) i len by simp
    from steps_in_levels[OF inv bfs this k(2)] obtain j where j: "j \<le> k" "getName p \<in> names (levels t ! j)"
      by blast
    have "getName p \<in> names (levels t ! i)" using p by (simp add: names_def)
    then have "j = i" using levels_same_name[OF dL _ i j(2)] j(1) k(1) i by simp
    then show False using j(1) k(1) by simp
  qed
  then show ?thesis using bfs i p unfolding bfs_inv_def by blast
qed

lemma tree_reach_bfs:
  assumes ok: "sched_ok ev" and r: "tree_reach ev t"
  shows "bfs_inv ev t"
  using r
proof (induction rule: tree_reach.induct)
  case (reach_Tree r starting)
  show ?case by (rule bfs_inv_Tree)
next
  case (reach_explore t t' new lastInQueue)
  have inv: "tree_inv t" and ne: "queue t \<noteq> []"
    using tree_reach_inv[OF ok reach_explore.hyps(1)] by simp_all
  have pop: "pop ev (queue t) \<in> set (queue t)" using ok ne by (simp add: sched_ok_def)
  have "t' = explored ev t" using explore_Inr_explored(1)[OF inv ne pop reach_explore.hyps(2)] .
  then show ?case using bfs_inv_explored[OF inv reach_explore.IH pop] by simp
qed

text \<open>
  C5. In every reachable tree no name occurs twice in the levels, and a page of level
  \<open>i\<close> ends a walk of \<open>i\<close> links from the root and no shorter one. A call of
  \<open>explore\<close> adds to the levels the fetched children whose name is in no level, and
  nothing else, and the tree it leaves has the same two properties.
\<close>

theorem first_discovery_wins:
  assumes "sched_ok ev" and "tree_reach ev t"
  shows "distinct (map getName (concat (levels t)))
         \<and> (\<forall>i < length (levels t). \<forall>p \<in> set (levels t ! i).
               getName p \<in> steps ev (isStarting t) (getName (root t)) i
               \<and> (\<forall>k < i. getName p \<notin> steps ev (isStarting t) (getName (root t)) k))
         \<and> (\<forall>t' ok new lastInQueue. explore ev t = Inr (t', ok, new, lastInQueue) \<longrightarrow>
               names new \<inter> names (concat (levels t)) = {}
               \<and> concat (levels t') =
                   concat (levels t)
                   @ difference (getChildren ev (isStarting t) (pop ev (queue t))) (concat (levels t))
               \<and> distinct (map getName (concat (levels t')))
               \<and> (\<forall>i < length (levels t'). \<forall>p \<in> set (levels t' ! i).
                     getName p \<in> steps ev (isStarting t') (getName (root t')) i
                     \<and> (\<forall>k < i. getName p \<notin> steps ev (isStarting t') (getName (root t')) k)))"
proof -
  have inv: "tree_inv t" and ne: "queue t \<noteq> []" using tree_reach_inv[OF assms] by simp_all
  have bfs: "bfs_inv ev t" by (rule tree_reach_bfs[OF assms])
  have pop: "pop ev (queue t) \<in> set (queue t)" using assms(1) ne by (simp add: sched_ok_def)
  have inv': "tree_inv (explored ev t)" by (rule tree_inv_explored[OF inv ne pop])
  have bfs': "bfs_inv ev (explored ev t)" by (rule bfs_inv_explored[OF inv bfs pop])
  have a: "distinct (map getName (concat (levels t)))" using inv by (simp add: tree_inv_def)
  have b: "\<forall>i < length (levels t). \<forall>p \<in> set (levels t ! i).
             getName p \<in> steps ev (isStarting t) (getName (root t)) i
             \<and> (\<forall>k < i. getName p \<notin> steps ev (isStarting t) (getName (root t)) k)"
    using level_is_distance[OF inv bfs] by blast
  have c: "names new \<inter> names (concat (levels t)) = {}
           \<and> concat (levels t') =
               concat (levels t)
               @ difference (getChildren ev (isStarting t) (pop ev (queue t))) (concat (levels t))
           \<and> distinct (map getName (concat (levels t')))
           \<and> (\<forall>i < length (levels t'). \<forall>p \<in> set (levels t' ! i).
                 getName p \<in> steps ev (isStarting t') (getName (root t')) i
                 \<and> (\<forall>k < i. getName p \<notin> steps ev (isStarting t') (getName (root t')) k))"
    if e: "explore ev t = Inr (t', ok, new, lastInQueue)" for t' ok new lastInQueue
  proof -
    have t': "t' = explored ev t" and new: "new = (if explored_ok ev t then unseen ev t else [])"
      using explore_eq[OF inv ne pop] e by simp_all
    have 1: "names new \<inter> names (concat (levels t)) = {}"
      using names_unseen[of ev t] new by simp
    have 2: "concat (levels t') =
               concat (levels t)
               @ difference (getChildren ev (isStarting t) (pop ev (queue t))) (concat (levels t))"
      using concat_grown[OF inv, of ev] t' by (simp add: unseen_def)
    have 3: "distinct (map getName (concat (levels t')))" using inv' t' by (simp add: tree_inv_def)
    have 4: "\<forall>i < length (levels t'). \<forall>p \<in> set (levels t' ! i).
                 getName p \<in> steps ev (isStarting t') (getName (root t')) i
                 \<and> (\<forall>k < i. getName p \<notin> steps ev (isStarting t') (getName (root t')) k)"
      using level_is_distance[OF inv' bfs'] t' by blast
    show ?thesis using 1 2 3 4 by blast
  qed
  show ?thesis using a b c by blast
qed

theorem first_discovery_wins_witness:
  "sched_ok ev_ABCD \<and> tree_reach ev_ABCD tree_ABCD_1
   \<and> distinct (map getName (concat (levels tree_ABCD_1)))
   \<and> concat (levels tree_ABCD_2) =
       concat (levels tree_ABCD_1) @ [Page ''D'' (Some (Page ''B'' (Some (Page ''A'' None))))]
   \<and> distinct (map getName (concat (levels tree_ABCD_2)))"
  using first_discovery_wins[OF sched_ok_ABCD tree_reach_ABCD_1] explore_ABCD_1
  by (simp add: sched_ok_ABCD tree_reach_ABCD_1) (simp add: tree_ABCD_1_def tree_ABCD_2_def)

section \<open>One call of explore in a game\<close>

lemma side_tree_simps [simp]:
  "side_tree True g = startTree g" "side_tree False g = endTree g"
  "other_tree True g = endTree g" "other_tree False g = startTree g"
  "set_side_tree True t g = g\<lparr>startTree := t\<rparr>" "set_side_tree False t g = g\<lparr>endTree := t\<rparr>"
  by (simp_all add: side_tree_def other_tree_def set_side_tree_def)

lemma game_inv_Game: "game_inv ev (Game s e)"
  by (simp add: game_inv_def Game_def tree_inv_Tree chain_inv_Tree)
     (simp add: Tree_def at_boundary_def)

lemma path_ok_mono:
  assumes "path_ok g p"
    and "set (concat (levels (startTree g))) \<subseteq> set (concat (levels (startTree g')))"
    and "set (concat (levels (endTree g))) \<subseteq> set (concat (levels (endTree g')))"
    and "length (levels (startTree g)) \<le> length (levels (startTree g'))"
    and "length (levels (endTree g)) \<le> length (levels (endTree g'))"
  shows "path_ok g' p"
proof -
  from assms(1) obtain a b m where h: "p = rev (ancestors a) @ [m] @ ancestors b"
    "a \<in> set (concat (levels (startTree g)))" "b \<in> set (concat (levels (endTree g)))"
    "getName a = getName m" "getName b = getName m"
    unfolding path_ok_def by blast
  have "\<exists>a b m. p = rev (ancestors a) @ [m] @ ancestors b
        \<and> a \<in> set (concat (levels (startTree g'))) \<and> b \<in> set (concat (levels (endTree g')))
        \<and> getName a = getName m \<and> getName b = getName m"
    using h assms(2,3) by blast
  moreover have "2 \<le> length p"
    "length p < length (levels (startTree g')) + length (levels (endTree g'))"
    using assms(1,4,5) by (auto simp: path_ok_def)
  ultimately show ?thesis unfolding path_ok_def by blast
qed

lemma explore_Inr_queue: "explore ev t = Inr r \<Longrightarrow> queue t \<noteq> []"
  by (auto simp: explore_def)

lemma explored_grows:
  assumes "tree_inv t"
  shows "set (concat (levels t)) \<subseteq> set (concat (levels (explored ev t)))"
    and "length (levels t) \<le> length (levels (explored ev t))"
    and "2 \<le> length (levels (explored ev t))"
  using concat_grown[OF assms, of ev] length_grown[OF assms, of ev] assms
  by (auto simp: tree_inv_def)

lemma at_boundary_explored:
  assumes "tree_inv t" "at_boundary (explored ev t)"
  shows "remove_page (pop ev (queue t)) (queue t) = []"
  using assms length_grown[OF assms(1), of ev]
  by (auto simp: at_boundary_def queueLevel_explored split: if_splits)

lemma game_inv_explore:
  assumes ok: "sched_ok ev" and gi: "game_inv ev g" and ob: "at_boundary (other_tree side g)"
    and e: "explore ev (side_tree side g) = Inr (t', okk, new, lastInQueue)"
  shows "game_inv ev (set_side_tree side t' g)"
    and "2 \<le> length (levels t')"
    and "set new \<subseteq> set (last (levels t'))"
    and "t' = explored ev (side_tree side g)"
proof -
  let ?t = "side_tree side g"
  have inv: "tree_inv ?t" and ch: "chain_inv ev ?t"
    using gi by (cases side; simp add: game_inv_def)+
  have ne: "queue ?t \<noteq> []" using e by (rule explore_Inr_queue)
  have pop: "pop ev (queue ?t) \<in> set (queue ?t)" using ok ne by (simp add: sched_ok_def)
  have t': "t' = explored ev ?t" and new: "new = (if explored_ok ev ?t then unseen ev ?t else [])"
    using explore_eq[OF inv ne pop] e by simp_all
  have inv': "tree_inv t'" using tree_inv_explored[OF inv ne pop] t' by simp
  have ch': "chain_inv ev t'" using chain_inv_explored[OF inv ch pop] t' by simp
  note gr = explored_grows[OF inv, of ev, folded t']
  show "t' = explored ev ?t" by (rule t')
  show "2 \<le> length (levels t')" by (rule gr(3))
  show "set new \<subseteq> set (last (levels t'))"
    using unseen_in_grown[OF inv, of ev] last_grown[OF inv, of ev] new t' by auto
  have po: "path_ok (set_side_tree side t' g) p" if "path_ok g p" for p
  proof (cases side)
    case True
    show ?thesis using gr(1,2) True by (intro path_ok_mono[OF that]) simp_all
  next
    case False
    show ?thesis using gr(1,2) False by (intro path_ok_mono[OF that]) simp_all
  qed
  show "game_inv ev (set_side_tree side t' g)"
    using gi ob inv' ch' po by (cases side) (auto simp: game_inv_def t')
qed


section \<open>Recording the paths of one call of explore\<close>

lemma find_name:
  "find (\<lambda>p. getName p = n) xs = Some a \<Longrightarrow> a \<in> set xs \<and> getName a = n"
  by (auto simp: find_Some_iff)

lemma getPath_Inr:
  assumes "getPath g m = Inr p"
  obtains a b where "a \<in> set (endpoints (startTree g))" "getName a = getName m"
    "b \<in> set (endpoints (endTree g))" "getName b = getName m"
    "p = rev (ancestors a) @ [m] @ ancestors b"
  using assms unfolding getPath_def
  by (auto split: option.splits dest!: find_name)

lemma endpoint_in_last:
  assumes inv: "tree_inv t" and a: "a \<in> set (endpoints t)"
    and u: "at_boundary t \<or> (\<exists>u \<in> set (last (levels t)). getName u = getName a)"
  shows "a \<in> set (last (levels t))"
  using u
proof
  assume "at_boundary t"
  then show ?thesis using endpoints_levels[OF inv] a by (simp add: at_boundary_def)
next
  assume "\<exists>u \<in> set (last (levels t)). getName u = getName a"
  then obtain u where u: "u \<in> set (last (levels t))" "getName u = getName a" by blast
  have "levels t \<noteq> []" using inv by (simp add: tree_inv_def)
  then have "u \<in> set (concat (levels t))" using u(1) set_last_concat by blast
  moreover have "a \<in> set (concat (levels t))" using a tree_inv_endpoints_sub[OF inv] by blast
  moreover have "distinct (map getName (concat (levels t)))" using inv by (simp add: tree_inv_def)
  ultimately have "u = a" using u(2) same_name_same_page by blast
  then show ?thesis using u(1) by simp
qed

lemma last_level_depth:
  assumes "tree_inv t" "chain_inv ev t" "a \<in> set (last (levels t))"
  shows "Suc (length (ancestors a)) = length (levels t)"
proof -
  have ne: "levels t \<noteq> []" using assms(1) by (simp add: tree_inv_def)
  then have "last (levels t) = levels t ! (length (levels t) - 1)" by (rule last_conv_nth)
  then have "length (ancestors a) = length (levels t) - 1"
    using assms(2,3) ne unfolding chain_inv_def
    by (metis diff_less length_greater_0_conv zero_less_one)
  then show ?thesis using ne by (cases "levels t") auto
qed

lemma getPath_new:
  assumes gi: "game_inv ev g" and ob: "at_boundary (other_tree side g)"
    and two: "2 \<le> length (levels (side_tree side g))"
    and u: "\<exists>u \<in> set (last (levels (side_tree side g))). getName u = getName m"
    and p: "getPath g m = Inr p"
  shows "path_ok g p" and "Suc (length p) = length (levels (startTree g)) + length (levels (endTree g))"
proof -
  from p obtain a b where ab: "a \<in> set (endpoints (startTree g))" "getName a = getName m"
    "b \<in> set (endpoints (endTree g))" "getName b = getName m"
    "p = rev (ancestors a) @ [m] @ ancestors b"
    by (rule getPath_Inr)
  have invS: "tree_inv (startTree g)" and invE: "tree_inv (endTree g)"
    and chS: "chain_inv ev (startTree g)" and chE: "chain_inv ev (endTree g)"
    using gi by (simp_all add: game_inv_def)
  have aS: "a \<in> set (last (levels (startTree g)))"
    using ob u ab(2) by (intro endpoint_in_last[OF invS ab(1)]) (cases side; simp)
  have bE: "b \<in> set (last (levels (endTree g)))"
    using ob u ab(4) by (intro endpoint_in_last[OF invE ab(3)]) (cases side; simp)
  have la: "Suc (length (ancestors a)) = length (levels (startTree g))"
    by (rule last_level_depth[OF invS chS aS])
  have lb: "Suc (length (ancestors b)) = length (levels (endTree g))"
    by (rule last_level_depth[OF invE chE bE])
  show len: "Suc (length p) = length (levels (startTree g)) + length (levels (endTree g))"
    using la lb ab(5) by simp
  have "levels (startTree g) \<noteq> []" "levels (endTree g) \<noteq> []"
    using invS invE by (simp_all add: tree_inv_def)
  then have aS': "a \<in> set (concat (levels (startTree g)))"
    and bE': "b \<in> set (concat (levels (endTree g)))"
    using aS bE set_last_concat by blast+
  have "2 \<le> length p" using len two la lb by (cases side) simp_all
  then show "path_ok g p" using ab aS' bE' len unfolding path_ok_def by auto
qed

lemma sorted_snoc_length:
  assumes "sorted (map length ps)" "\<forall>q \<in> set ps. length q \<le> length p"
  shows "sorted (map length (ps @ [p]))"
  using assms by (simp add: sorted_append)

lemma record_paths_inv:
  assumes "record_paths T mids g = Inr g'"
    and "game_inv ev g" and "at_boundary (other_tree side g)"
    and "2 \<le> length (levels (side_tree side g))"
    and "\<forall>m \<in> set mids. \<exists>u \<in> set (last (levels (side_tree side g))). getName u = getName m"
    and "searchIndex g \<le> T" and "searchIndex g < T \<longrightarrow> searchIndex g = int (length (paths g))"
  shows "game_inv ev g' \<and> startTree g' = startTree g \<and> endTree g' = endTree g
         \<and> (\<exists>more. paths g' = paths g @ more)
         \<and> searchIndex g' \<le> T
         \<and> (searchIndex g' < T \<longrightarrow> searchIndex g' = int (length (paths g')))
         \<and> searchIndex g \<le> searchIndex g'"
  using assms
proof (induction mids arbitrary: g)
  case Nil
  then show ?case by simp
next
  case (Cons m mids)
  from Cons.prems(1) obtain p where p: "getPath g m = Inr p"
    by (auto split: sum.splits)
  let ?g1 = "g\<lparr>searchIndex := (if searchIndex g < T then searchIndex g + 1 else searchIndex g),
                  paths := paths g @ [p]\<rparr>"
  have rec: "record_paths T mids ?g1 = Inr g'" using Cons.prems(1) p by simp
  have um: "\<exists>u \<in> set (last (levels (side_tree side g))). getName u = getName m"
    using Cons.prems(5) by simp
  note np = getPath_new[OF Cons.prems(2,3,4) um p]
  have old: "\<forall>q \<in> set (paths g). path_ok g q" and srt: "sorted (map length (paths g))"
    using Cons.prems(2) by (simp_all add: game_inv_def)
  have "\<forall>q \<in> set (paths g). length q \<le> length p"
    using old np(2) by (auto simp: path_ok_def)
  then have srt': "sorted (map length (paths g @ [p]))" using srt by (rule sorted_snoc_length[rotated])
  have pk: "path_ok ?g1 q = path_ok g q" for q by (simp add: path_ok_def)
  have gi1: "game_inv ev ?g1"
    using Cons.prems(2,6,7) np(1) srt' old unfolding game_inv_def by (auto simp: pk)
  have side1: "other_tree side ?g1 = other_tree side g" "side_tree side ?g1 = side_tree side g"
    by (cases side; simp)+
  have "game_inv ev g' \<and> startTree g' = startTree ?g1 \<and> endTree g' = endTree ?g1
         \<and> (\<exists>more. paths g' = paths ?g1 @ more)
         \<and> searchIndex g' \<le> T
         \<and> (searchIndex g' < T \<longrightarrow> searchIndex g' = int (length (paths g')))
         \<and> searchIndex ?g1 \<le> searchIndex g'"
  proof (rule Cons.IH[OF rec gi1])
    show "at_boundary (other_tree side ?g1)" using Cons.prems(3) side1 by simp
    show "2 \<le> length (levels (side_tree side ?g1))" using Cons.prems(4) side1 by simp
    show "\<forall>m \<in> set mids. \<exists>u \<in> set (last (levels (side_tree side ?g1))). getName u = getName m"
      using Cons.prems(5) side1 by simp
    show "searchIndex ?g1 \<le> T" using Cons.prems(6) by simp
    show "searchIndex ?g1 < T \<longrightarrow> searchIndex ?g1 = int (length (paths ?g1))"
      using Cons.prems(6,7) by simp
  qed
  moreover have "searchIndex g \<le> searchIndex ?g1" by simp
  ultimately show ?case by (auto simp del: game.simps split: if_splits)
qed


section \<open>The loops of search\<close>

lemma extends_refl: "extends g g"
  by (simp add: extends_def)

lemma extends_trans: "extends g g1 \<Longrightarrow> extends g1 g2 \<Longrightarrow> extends g g2"
  by (auto simp: extends_def)

lemma intersection_names:
  "m \<in> set (intersection xs ys) \<Longrightarrow> getName m \<in> names xs \<and> getName m \<in> names ys"
  by (auto simp: intersection_def member_def names_def split: if_splits)

lemma explore_loop_inv:
  assumes "explore_loop ev side T q g = Some y"
  shows "sched_ok ev \<longrightarrow> loop_inv ev T g \<longrightarrow> at_boundary (other_tree side g) \<longrightarrow>
         (\<forall>flag g'. y = Inr (flag, g') \<longrightarrow>
            loop_inv ev T g' \<and> extends g g' \<and> (\<not> flag \<longrightarrow> searchIndex g' < T))"
proof (rule explore_loop.raw_induct[where P = "\<lambda>ev side T q g y.
         sched_ok ev \<longrightarrow> loop_inv ev T g \<longrightarrow> at_boundary (other_tree side g) \<longrightarrow>
         (\<forall>flag g'. y = Inr (flag, g') \<longrightarrow>
            loop_inv ev T g' \<and> extends g g' \<and> (\<not> flag \<longrightarrow> searchIndex g' < T))", OF _ assms],
       goal_cases)
  case (1 loop ev side T q g y)
  show ?case
  proof (intro impI allI)
    fix flag g'
    assume ok: "sched_ok ev" and li: "loop_inv ev T g" and ob: "at_boundary (other_tree side g)"
      and y: "y = Inr (flag, g')"
    have gi: "game_inv ev g" and le: "searchIndex g \<le> T"
      and eq: "searchIndex g < T \<longrightarrow> searchIndex g = int (length (paths g))"
      using li by (simp_all add: loop_inv_def)
    show "loop_inv ev T g' \<and> extends g g' \<and> (\<not> flag \<longrightarrow> searchIndex g' < T)"
    proof (cases "\<not> q \<and> searchIndex g < T")
      case False
      then have "g' = g" "flag" using 1(2) y by auto
      then show ?thesis using li by (simp add: extends_refl)
    next
      case True
      then obtain t' okk new lastInQueue
        where e: "explore ev (side_tree side g) = Inr (t', okk, new, lastInQueue)"
        using 1(2) y by (auto split: sum.splits)
      let ?g1 = "set_side_tree side t' g"
      note ge = game_inv_explore[OF ok gi ob e]
      have same: "paths ?g1 = paths g" "searchIndex ?g1 = searchIndex g"
        "other_tree side ?g1 = other_tree side g" "side_tree side ?g1 = t'"
        by (cases side; simp)+
      have roots: "root (startTree ?g1) = root (startTree g)" "root (endTree ?g1) = root (endTree g)"
        "length (levels (startTree g)) \<le> length (levels (startTree ?g1))"
        "length (levels (endTree g)) \<le> length (levels (endTree ?g1))"
        using ge(4) explored_grows(2)[of "side_tree side g" ev] gi
        by (cases side; simp add: game_inv_def)+
      show ?thesis
      proof (cases okk)
        case False
        then have "g' = ?g1" "\<not> flag" using 1(2) y True e by auto
        then show ?thesis using ge(1) same le eq True roots
          by (simp add: loop_inv_def extends_def)
      next
        case okk: True
        then obtain g2 where
          r: "record_paths T (iter ev (intersection (endpoints (other_tree side g)) new)) ?g1 = Inr g2"
          and l: "loop ev side T lastInQueue g2 = Some y"
          using 1(2) y True e by (auto split: sum.splits)
        have mids: "\<forall>m \<in> set (iter ev (intersection (endpoints (other_tree side g)) new)).
                      \<exists>u \<in> set (last (levels (side_tree side ?g1))). getName u = getName m"
        proof
          fix m assume "m \<in> set (iter ev (intersection (endpoints (other_tree side g)) new))"
          then have "m \<in> set (intersection (endpoints (other_tree side g)) new)"
            using ok by (simp add: sched_ok_def)
          then have "getName m \<in> names new" using intersection_names by blast
          then obtain u where "u \<in> set new" "getName u = getName m" by (auto simp: names_def)
          then show "\<exists>u \<in> set (last (levels (side_tree side ?g1))). getName u = getName m"
            using ge(3) same(4) by auto
        qed
        have rp: "game_inv ev g2 \<and> startTree g2 = startTree ?g1 \<and> endTree g2 = endTree ?g1
                  \<and> (\<exists>more. paths g2 = paths ?g1 @ more)
                  \<and> searchIndex g2 \<le> T
                  \<and> (searchIndex g2 < T \<longrightarrow> searchIndex g2 = int (length (paths g2)))
                  \<and> searchIndex ?g1 \<le> searchIndex g2"
        proof (rule record_paths_inv[OF r ge(1), of side])
          show "at_boundary (other_tree side ?g1)" using ob same by simp
          show "2 \<le> length (levels (side_tree side ?g1))" using ge(2) same by simp
          show "\<forall>m \<in> set (iter ev (intersection (endpoints (other_tree side g)) new)).
                  \<exists>u \<in> set (last (levels (side_tree side ?g1))). getName u = getName m"
            by (rule mids)
          show "searchIndex ?g1 \<le> T" using le same by simp
          show "searchIndex ?g1 < T \<longrightarrow> searchIndex ?g1 = int (length (paths ?g1))"
            using eq same by simp
        qed
        have li2: "loop_inv ev T g2" using rp by (simp add: loop_inv_def)
        have ob2: "at_boundary (other_tree side g2)" using rp ob same(3) by (cases side) auto
        have ex2: "extends g g2" using rp same roots by (auto simp: extends_def)
        have "loop_inv ev T g' \<and> extends g2 g' \<and> (\<not> flag \<longrightarrow> searchIndex g' < T)"
          using 1(1)[OF l] ok li2 ob2 y by blast
        then show ?thesis using ex2 extends_trans by blast
      qed
    qed
  qed
qed

lemma choose_other_boundary:
  assumes "game_inv ev g"
  shows "at_boundary (other_tree (choose_start g) g)"
proof (cases "choose_start g")
  case True
  then show ?thesis using assms
    by (auto simp: choose_start_def game_inv_def at_boundary_def)
next
  case False
  then have "int (queueLevel (startTree g)) \<noteq> int (length (levels (startTree g))) - 2"
    by (simp add: choose_start_def)
  moreover have "Suc (queueLevel (startTree g)) = length (levels (startTree g))
                 \<or> queueLevel (startTree g) + 2 = length (levels (startTree g))"
    using assms by (simp add: game_inv_def tree_inv_def)
  ultimately show ?thesis using False by (auto simp: at_boundary_def)
qed

lemma search_loop_inv:
  assumes "search_loop ev T g = Some y"
  shows "sched_ok ev \<longrightarrow> loop_inv ev T g \<longrightarrow>
         (\<forall>out g'. y = Inr (out, g') \<longrightarrow>
            loop_inv ev T g' \<and> extends g g'
            \<and> (out = Finished \<longrightarrow> searchIndex g' = T)
            \<and> (out \<noteq> Finished \<longrightarrow> searchIndex g' < T))"
proof (rule search_loop.raw_induct[where P = "\<lambda>ev T g y.
         sched_ok ev \<longrightarrow> loop_inv ev T g \<longrightarrow>
         (\<forall>out g'. y = Inr (out, g') \<longrightarrow>
            loop_inv ev T g' \<and> extends g g'
            \<and> (out = Finished \<longrightarrow> searchIndex g' = T)
            \<and> (out \<noteq> Finished \<longrightarrow> searchIndex g' < T))", OF _ assms],
       goal_cases)
  case (1 loop ev T g y)
  show ?case
  proof (intro impI allI)
    fix out g'
    assume ok: "sched_ok ev" and li: "loop_inv ev T g" and y: "y = Inr (out, g')"
    show "loop_inv ev T g' \<and> extends g g'
          \<and> (out = Finished \<longrightarrow> searchIndex g' = T) \<and> (out \<noteq> Finished \<longrightarrow> searchIndex g' < T)"
    proof (cases "searchIndex g < T")
      case False
      then have "g' = g" "out = Finished" using 1(2) y by auto
      then show ?thesis using li False by (auto simp: extends_refl loop_inv_def)
    next
      case True
      then obtain r where r: "explore_loop ev (choose_start g) T False g = Some r"
        and rr: "(case r of Inl e \<Rightarrow> Some (Inl e)
                  | Inr (continue, g') \<Rightarrow>
                      if continue then loop ev T g'
                      else Some (Inr (if choose_start g then NoPathsStarting else NoPathsEnding, g')))
                 = Some y"
        using 1(2) by (auto simp: bind_eq_Some_conv)
      obtain cont g1 where rc: "r = Inr (cont, g1)"
        using rr y by (cases r) auto
      have el: "explore_loop ev (choose_start g) T False g = Some (Inr (cont, g1))"
        and rest: "(if cont then loop ev T g1
                    else Some (Inr (if choose_start g then NoPathsStarting else NoPathsEnding, g1)))
                   = Some y"
        using r rr rc by simp_all
      have ob: "at_boundary (other_tree (choose_start g) g)"
        using li by (intro choose_other_boundary[of ev]) (simp add: loop_inv_def)
      have g1: "loop_inv ev T g1" "extends g g1" "\<not> cont \<longrightarrow> searchIndex g1 < T"
        using explore_loop_inv[OF el] ok li ob by blast+
      show ?thesis
      proof (cases cont)
        case True
        then have "loop ev T g1 = Some y" using rest by simp
        then have "loop_inv ev T g' \<and> extends g1 g'
                   \<and> (out = Finished \<longrightarrow> searchIndex g' = T)
                   \<and> (out \<noteq> Finished \<longrightarrow> searchIndex g' < T)"
          using 1(1) ok g1(1) y by blast
        then show ?thesis using g1(2) extends_trans by blast
      next
        case False
        then have "g' = g1" "out \<noteq> Finished" using rest y by (auto split: if_splits)
        then show ?thesis using g1 False by simp
      qed
    qed
  qed
qed


section \<open>One call of search\<close>

lemma set_py_slice: "set (py_slice a b xs) \<subseteq> set xs"
  unfolding py_slice_def Let_def
  by (meson set_take_subset set_drop_subset subset_trans)

lemma py_slice_nonneg:
  assumes "0 \<le> a" "a \<le> b"
  shows "py_slice a b xs = drop (nat a) (take (nat b) xs)"
proof (cases "a < int (length xs)")
  case True
  have "take (nat (min b (int (length xs)) - a)) (drop (nat a) xs) = drop (nat a) (take (nat b) xs)"
    using assms True by (simp add: drop_take min_def nat_diff_distrib)
  then show ?thesis using assms True by (simp add: py_slice_def Let_def min_def)
next
  case False
  then show ?thesis using assms by (simp add: py_slice_def Let_def min_def)
qed

lemma path_ok_searchIndex [simp]: "path_ok (g\<lparr>searchIndex := k\<rparr>) q = path_ok g q"
  by (simp add: path_ok_def)

lemma search_Inr:
  assumes "endpoints (startTree g) \<noteq> []" "endpoints (endTree g) \<noteq> []"
    and s: "search ev count g = Some (Inr (g', res, out))"
  shows "search_loop ev (searchIndex g + count)
           (g\<lparr>searchIndex := searchIndex g
               + max 0 (min (searchIndex g + count) (int (length (paths g))) - searchIndex g)\<rparr>)
         = Some (Inr (out, g'))"
    and "res = py_slice (searchIndex g) (searchIndex g + count) (paths g')"
proof -
  obtain r where r: "search_loop ev (searchIndex g + count)
           (g\<lparr>searchIndex := searchIndex g
               + max 0 (min (searchIndex g + count) (int (length (paths g))) - searchIndex g)\<rparr>)
         = Some r"
    and rr: "(case r of Inl e \<Rightarrow> Some (Inl e)
              | Inr (out, g2) \<Rightarrow>
                  Some (Inr (g2, py_slice (searchIndex g) (searchIndex g + count) (paths g2), out)))
             = Some (Inr (g', res, out))"
    using assms by (auto simp: search_def Let_def bind_eq_Some_conv)
  obtain o2 g2 where "r = Inr (o2, g2)" using rr by (cases r) auto
  then show "search_loop ev (searchIndex g + count)
           (g\<lparr>searchIndex := searchIndex g
               + max 0 (min (searchIndex g + count) (int (length (paths g))) - searchIndex g)\<rparr>)
         = Some (Inr (out, g'))"
    and "res = py_slice (searchIndex g) (searchIndex g + count) (paths g')"
    using r rr by auto
qed

lemma search_inv:
  assumes ok: "sched_ok ev" and gi: "game_inv ev g"
    and s: "search ev count g = Some (Inr (g', res, out))"
  shows "game_inv ev g'" and "extends g g'" and "set res \<subseteq> set (paths g')"
    and "0 \<le> count \<Longrightarrow> res = drop (nat (searchIndex g)) (take (nat (searchIndex g')) (paths g'))"
proof -
  let ?T = "searchIndex g + count"
  let ?g1 = "g\<lparr>searchIndex := searchIndex g + max 0 (min ?T (int (length (paths g))) - searchIndex g)\<rparr>"
  have si: "0 \<le> searchIndex g" "searchIndex g \<le> int (length (paths g))"
    using gi by (simp_all add: game_inv_def)
  have all: "game_inv ev g' \<and> extends g g' \<and> set res \<subseteq> set (paths g')
             \<and> (0 \<le> count \<longrightarrow> res = drop (nat (searchIndex g)) (take (nat (searchIndex g')) (paths g')))"
  proof (cases "endpoints (startTree g) = [] \<or> endpoints (endTree g) = []")
    case True
    then have "g' = g" "res = []" using s by (auto simp: search_def Let_def split: if_splits)
    then show ?thesis using gi si by (simp add: extends_def)
  next
    case False
    then have l: "search_loop ev ?T ?g1 = Some (Inr (out, g'))"
      and res: "res = py_slice (searchIndex g) ?T (paths g')"
      using search_Inr[OF _ _ s] by simp_all
    have sub: "set res \<subseteq> set (paths g')" using res set_py_slice by simp
    show ?thesis
    proof (cases "0 \<le> count")
      case False
      then have "?g1 = g" using si by simp
      moreover have "search_loop ev ?T g = Some (Inr (Finished, g))"
        using False by (intro search_loop_done) simp
      ultimately have "g' = g" using l by simp
      then show ?thesis using gi sub False by (simp add: extends_def)
    next
      case True
      have gi1: "game_inv ev ?g1" using gi si True unfolding game_inv_def by auto
      have li1: "loop_inv ev ?T ?g1" using gi1 si True by (auto simp: loop_inv_def)
      have post: "loop_inv ev ?T g'" "extends ?g1 g'"
        "out = Finished \<longrightarrow> searchIndex g' = ?T" "out \<noteq> Finished \<longrightarrow> searchIndex g' < ?T"
        using search_loop_inv[OF l] ok li1 by blast+
      have gi': "game_inv ev g'" using post(1) by (simp add: loop_inv_def)
      have ex: "extends g g'" using post(2) si True by (auto simp: extends_def)
      have "take (nat ?T) (paths g') = take (nat (searchIndex g')) (paths g')"
      proof (cases "out = Finished")
        case True
        then show ?thesis using post(3) by simp
      next
        case False
        then have "searchIndex g' < ?T" "searchIndex g' = int (length (paths g'))"
          using post(1,4) by (auto simp: loop_inv_def)
        then show ?thesis by simp
      qed
      then have "res = drop (nat (searchIndex g)) (take (nat (searchIndex g')) (paths g'))"
        using res py_slice_nonneg[of "searchIndex g" ?T "paths g'"] si True by simp
      then show ?thesis using gi' ex sub by simp
    qed
  qed
  show "game_inv ev g'" "extends g g'" "set res \<subseteq> set (paths g')"
    "0 \<le> count \<Longrightarrow> res = drop (nat (searchIndex g)) (take (nat (searchIndex g')) (paths g'))"
    using all by simp_all
qed

lemma game_reach_inv:
  assumes "sched_ok ev" and "game_reach ev s e g"
  shows "game_inv ev g \<and> root (startTree g) = Page s None \<and> root (endTree g) = Page e None"
  using assms(2)
proof (induction rule: game_reach.induct)
  case reach_Game
  show ?case by (simp add: game_inv_Game) (simp add: Game_def Tree_def)
next
  case (reach_search g count g' res out)
  then show ?case using search_inv(1,2)[OF assms(1) _ reach_search.hyps(2)]
    by (auto simp: extends_def)
qed

section \<open>Searches on the small graphs\<close>

lemmas eval_simps = search_def search_loop.simps explore_loop.simps explore_def Let_def
  remove_page_def member_def names_def getChildren_def add_page_def difference_def
  intersection_def getPath_def choose_start_def Game_def Tree_def py_slice_def
  side_tree_def other_tree_def set_side_tree_def

lemma sched_ok_AB: "sched_ok ev_AB"
  by (simp add: sched_ok_def ev_AB_def)

lemma sched_ok_ABA: "sched_ok ev_ABA"
  by (simp add: sched_ok_def ev_ABA_def)

lemma search_AB:
  "search ev_AB 1 (Game ''A'' ''B'') =
     Some (Inr (game_AB_1, [[Page ''A'' None, Page ''B'' (Some (Page ''A'' None))]], Finished))"
  by (simp add: eval_simps ev_AB_def nb_AB_def game_AB_1_def)

lemma path_names_ABA:
  "path_names (search ev_ABA 1 (Game ''A'' ''A'')) = [[''A'', ''B'', ''A'']]"
  by (simp add: path_names_def eval_simps ev_ABA_def nb_ABA_def)

lemma path_names_W:
  "path_names (search ev_W 2 (Game ''A'' ''D'')) =
     [[''A'', ''W'', ''D''], [''A'', ''W'', ''M'', ''W'', ''D'']]"
  by (simp add: path_names_def eval_simps ev_W_def nb_W_def)

lemma sched_ok_W: "sched_ok ev_W"
  by (simp add: sched_ok_def ev_W_def)

lemma search_W_first:
  "search ev_W 1 (Game ''A'' ''D'') =
     Some (Inr (game_W_1,
                [[Page ''A'' None, Page ''W'' (Some (Page ''A'' None)), Page ''D'' None]],
                Finished))"
  by (simp add: eval_simps ev_W_def nb_W_def game_W_1_def)

lemma search_W_second:
  "search ev_W 1 game_W_1 =
     Some (Inr (game_W_2,
                [[Page ''A'' None, Page ''W'' (Some (Page ''A'' None)),
                  Page ''M'' (Some (Page ''W'' (Some (Page ''D'' None)))),
                  Page ''W'' (Some (Page ''D'' None)), Page ''D'' None]],
                Finished))"
  by (simp add: eval_simps ev_W_def nb_W_def game_W_1_def game_W_2_def)

lemma nb_AB_consistent:
  "\<forall>x y. (y \<in> set (neighbors ev_AB False x)) = (x \<in> set (neighbors ev_AB True y))"
  by (auto simp: ev_AB_def nb_AB_def split: if_splits)

lemma nb_W_consistent:
  "\<forall>x y. (y \<in> set (neighbors ev_W False x)) = (x \<in> set (neighbors ev_W True y))"
  by (auto simp: ev_W_def nb_W_def split: if_splits)


section \<open>The paths of a game\<close>




section \<open>Paths that can be walked\<close>

lemma links_forward_append:
  "links_forward ev (xs @ [x]) \<Longrightarrow> links_forward ev (x # ys) \<Longrightarrow> links_forward ev (xs @ x # ys)"
proof (induction xs)
  case Nil
  then show ?case by simp
next
  case (Cons a xs)
  then show ?case by (cases xs) auto
qed

lemma links_forward_nth:
  "links_forward ev ns \<Longrightarrow> Suc i < length ns \<Longrightarrow> ns ! Suc i \<in> set (neighbors ev True (ns ! i))"
proof (induction ev ns arbitrary: i rule: links_forward.induct)
  case (1 ev x y ys)
  then show ?case by (cases i) auto
qed simp_all

lemma linked_forward:
  "linked ev True (a # as) \<Longrightarrow> links_forward ev (rev (map getName as) @ [getName a])"
proof (induction as arbitrary: a)
  case Nil
  show ?case by simp
next
  case (Cons p ps)
  then have "links_forward ev (rev (map getName ps) @ [getName p])"
    and "links_forward ev (getName p # [getName a])" by simp_all
  then have "links_forward ev (rev (map getName ps) @ getName p # [getName a])"
    by (rule links_forward_append)
  then show ?case by simp
qed

lemma linked_backward:
  assumes "\<forall>x y. (y \<in> set (neighbors ev False x)) = (x \<in> set (neighbors ev True y))"
  shows "linked ev False (b # bs) \<Longrightarrow> links_forward ev (getName b # map getName bs)"
proof (induction bs arbitrary: b)
  case Nil
  show ?case by simp
next
  case (Cons p ps)
  then show ?case using assms by simp
qed

lemma in_concat_nth: "a \<in> set (concat xss) \<Longrightarrow> \<exists>i < length xss. a \<in> set (xss ! i)"
proof -
  assume "a \<in> set (concat xss)"
  then obtain xs where xs: "xs \<in> set xss" "a \<in> set xs" by auto
  then obtain i where "i < length xss" "xss ! i = xs" by (auto simp: in_set_conv_nth)
  then show ?thesis using xs(2) by blast
qed

lemma chain_invD:
  assumes "chain_inv ev t" "i < length (levels t)" "p \<in> set (levels t ! i)"
  shows "length (ancestors p) = i" "linked ev (isStarting t) (p # ancestors p)"
    "last (p # ancestors p) = root t"
  using assms unfolding chain_inv_def by blast+

lemma path_ok_shape:
  assumes gi: "game_inv ev g" and p: "path_ok g p"
  obtains a b m i j where "p = rev (ancestors a) @ [m] @ ancestors b"
    "getName a = getName m" "getName b = getName m"
    "i < length (levels (startTree g))" "a \<in> set (levels (startTree g) ! i)"
    "j < length (levels (endTree g))" "b \<in> set (levels (endTree g) ! j)"
    "length (ancestors a) = i" "length (ancestors b) = j"
    "linked ev True (a # ancestors a)" "linked ev False (b # ancestors b)"
    "last (a # ancestors a) = root (startTree g)" "last (b # ancestors b) = root (endTree g)"
proof -
  from p obtain a b m where h: "p = rev (ancestors a) @ [m] @ ancestors b"
    "a \<in> set (concat (levels (startTree g)))" "b \<in> set (concat (levels (endTree g)))"
    "getName a = getName m" "getName b = getName m"
    unfolding path_ok_def by blast
  obtain i where i: "i < length (levels (startTree g))" "a \<in> set (levels (startTree g) ! i)"
    using in_concat_nth[OF h(2)] by blast
  obtain j where j: "j < length (levels (endTree g))" "b \<in> set (levels (endTree g) ! j)"
    using in_concat_nth[OF h(3)] by blast
  have chS: "chain_inv ev (startTree g)" and chE: "chain_inv ev (endTree g)"
    and st: "isStarting (startTree g)" "\<not> isStarting (endTree g)"
    using gi by (simp_all add: game_inv_def)
  have a: "length (ancestors a) = i" "linked ev True (a # ancestors a)"
    "last (a # ancestors a) = root (startTree g)"
    using chain_invD[OF chS i] st by simp_all
  have b: "length (ancestors b) = j" "linked ev False (b # ancestors b)"
    "last (b # ancestors b) = root (endTree g)"
    using chain_invD[OF chE j] st by simp_all
  show thesis using that[OF h(1,4,5) i j a(1) b(1) a(2) b(2) a(3) b(3)] .
qed

lemma path_ok_links_forward:
  assumes gi: "game_inv ev g" and p: "path_ok g p"
    and c: "\<forall>x y. (y \<in> set (neighbors ev False x)) = (x \<in> set (neighbors ev True y))"
  shows "links_forward ev (map getName p)"
proof -
  from gi p obtain a b m where h: "p = rev (ancestors a) @ [m] @ ancestors b"
    "getName a = getName m" "getName b = getName m"
    "linked ev True (a # ancestors a)" "linked ev False (b # ancestors b)"
    by (rule path_ok_shape)
  have "links_forward ev (rev (map getName (ancestors a)) @ [getName m])"
    using linked_forward[OF h(4)] h(2) by simp
  moreover have "links_forward ev (getName m # map getName (ancestors b))"
    using linked_backward[OF c h(5)] h(3) by simp
  ultimately have "links_forward ev (rev (map getName (ancestors a)) @ getName m # map getName (ancestors b))"
    by (rule links_forward_append)
  then show ?thesis using h(1) by (simp add: rev_map)
qed

lemma validatePath_iff:
  "validatePath ev p \<longleftrightarrow>
     2 \<le> length p
     \<and> (\<forall>i. Suc i < length p \<longrightarrow> getName (p ! Suc i) \<in> set (neighbors ev True (getName (p ! i))))"
proof (cases "length p < 2")
  case True
  then show ?thesis by (simp add: validatePath_def)
next
  case False
  have "validatePath ev p \<longleftrightarrow>
          (\<forall>d \<in> set [0..<length p - 1].
             getName (p ! Suc d) \<in> set (neighbors ev True (getName (p ! d))))"
    using False by (simp add: validatePath_def list_all_iff member_def names_getChildren)
  also have "\<dots> \<longleftrightarrow>
          (\<forall>i. Suc i < length p \<longrightarrow>
             getName (p ! Suc i) \<in> set (neighbors ev True (getName (p ! i))))"
  proof -
    have "d < length p - 1 \<longleftrightarrow> Suc d < length p" for d by linarith
    then show ?thesis by (simp add: Ball_def)
  qed
  finally show ?thesis using False by simp
qed

text \<open>
  C4. When the backward lookup returns exactly the pages whose forward lookup returns
  the page asked for, every path that \<open>search\<close> returns can be walked forward: each
  page of it is among the forward neighbors of the page before it, and \<open>validatePath\<close>
  accepts it.
\<close>

theorem delivered_paths_valid:
  assumes "sched_ok ev"
    and "\<forall>x y. (y \<in> set (neighbors ev False x)) = (x \<in> set (neighbors ev True y))"
    and "game_reach ev s e g" and "search ev count g = Some (Inr (g', res, out))"
  shows "\<forall>p \<in> set res.
           validatePath ev p
           \<and> (\<forall>i. Suc i < length p \<longrightarrow>
                 getName (p ! Suc i) \<in> set (neighbors ev True (getName (p ! i))))"
proof
  fix p assume p: "p \<in> set res"
  have gi: "game_inv ev g" using game_reach_inv[OF assms(1,3)] by simp
  note si = search_inv[OF assms(1) gi assms(4)]
  have po: "path_ok g' p" using si(1,3) p by (auto simp: game_inv_def)
  have lf: "links_forward ev (map getName p)" by (rule path_ok_links_forward[OF si(1) po assms(2)])
  have nth: "getName (p ! Suc i) \<in> set (neighbors ev True (getName (p ! i)))"
    if "Suc i < length p" for i
    using links_forward_nth[OF lf, of i] that by simp
  moreover have "2 \<le> length p" using po by (simp add: path_ok_def)
  ultimately show "validatePath ev p
           \<and> (\<forall>i. Suc i < length p \<longrightarrow>
                 getName (p ! Suc i) \<in> set (neighbors ev True (getName (p ! i))))"
    by (simp add: validatePath_iff)
qed

theorem delivered_paths_valid_witness:
  "sched_ok ev_AB
   \<and> (\<forall>x y. (y \<in> set (neighbors ev_AB False x)) = (x \<in> set (neighbors ev_AB True y)))
   \<and> game_reach ev_AB ''A'' ''B'' (Game ''A'' ''B'')
   \<and> search ev_AB 1 (Game ''A'' ''B'') =
       Some (Inr (game_AB_1, [[Page ''A'' None, Page ''B'' (Some (Page ''A'' None))]], Finished))
   \<and> validatePath ev_AB [Page ''A'' None, Page ''B'' (Some (Page ''A'' None))]
   \<and> ''B'' \<in> set (neighbors ev_AB True ''A'')"
proof -
  have "validatePath ev_AB [Page ''A'' None, Page ''B'' (Some (Page ''A'' None))]
        \<and> (\<forall>i. Suc i < 2 \<longrightarrow>
              getName ([Page ''A'' None, Page ''B'' (Some (Page ''A'' None))] ! Suc i)
              \<in> set (neighbors ev_AB True
                       (getName ([Page ''A'' None, Page ''B'' (Some (Page ''A'' None))] ! i))))"
    using delivered_paths_valid[OF sched_ok_AB nb_AB_consistent reach_Game search_AB] by simp
  then have "validatePath ev_AB [Page ''A'' None, Page ''B'' (Some (Page ''A'' None))]"
    and "''B'' \<in> set (neighbors ev_AB True ''A'')" by auto
  then show ?thesis
    using sched_ok_AB nb_AB_consistent reach_Game[of ev_AB "''A''" "''B''"] search_AB
    by (intro conjI) assumption+
qed

section \<open>The shape of a recorded path\<close>

lemma path_ok_ends:
  assumes "p = rev (ancestors a) @ [m] @ ancestors b"
    and "getName a = getName m" "getName b = getName m"
    and "last (a # ancestors a) = ra" "last (b # ancestors b) = rb"
  shows "getName (hd p) = getName ra" "getName (last p) = getName rb"
proof -
  show "getName (hd p) = getName ra"
  proof (cases "ancestors a = []")
    case True
    then show ?thesis using assms by simp
  next
    case False
    then have "hd p = last (ancestors a)" using assms(1) by (simp add: hd_rev)
    then show ?thesis using assms(4) False by simp
  qed
  show "getName (last p) = getName rb"
  proof (cases "ancestors b = []")
    case True
    then show ?thesis using assms by simp
  next
    case False
    then show ?thesis using assms(1,5) by simp
  qed
qed

text \<open>
  C9, as stated, fails: on the graph \<open>A \<rightarrow> W\<close>, \<open>W \<rightarrow> M, Z, D\<close>, \<open>M \<rightarrow> W\<close> the second path
  that \<open>search\<close> delivers from \<open>A\<close> to \<open>D\<close> goes through \<open>W\<close> twice: the two halves of
  it share \<open>W\<close>, which is not the meeting page \<open>M\<close>.
\<close>

theorem search_delivers_repeated_page:
  "sched_ok ev_W
   \<and> path_names (search ev_W 2 (Game ''A'' ''D'')) =
       [[''A'', ''W'', ''D''], [''A'', ''W'', ''M'', ''W'', ''D'']]
   \<and> \<not> distinct (path_names (search ev_W 2 (Game ''A'' ''D'')) ! 1)"
  by (simp add: path_names_W) (simp add: sched_ok_def ev_W_def)

text \<open>
  C9, amended. \<open>__getPath\<close> returns the parents of the endpoint of the starting tree
  that carries the name of \<open>mid\<close>, then \<open>mid\<close>, then the parents of the endpoint of the
  ending tree that carries this name. Every path recorded in a game starts at the
  start page and ends at the goal page, and it has one page more than the depth of
  the meeting page in the starting tree plus its depth in the ending tree. (A page
  other than the meeting page may occur in both halves.)
\<close>

theorem path_reconstruction:
  assumes "sched_ok ev" and "game_reach ev s e g"
  shows "(\<forall>g0 mid p. getPath g0 mid = Inr p \<longrightarrow>
            (\<exists>a \<in> set (endpoints (startTree g0)). \<exists>b \<in> set (endpoints (endTree g0)).
               getName a = getName mid \<and> getName b = getName mid
               \<and> p = rev (ancestors a) @ [mid] @ ancestors b))
         \<and> (\<forall>p \<in> set (paths g).
               \<exists>a b m i j. p = rev (ancestors a) @ [m] @ ancestors b
                 \<and> getName a = getName m \<and> getName b = getName m
                 \<and> i < length (levels (startTree g)) \<and> a \<in> set (levels (startTree g) ! i)
                 \<and> j < length (levels (endTree g)) \<and> b \<in> set (levels (endTree g) ! j)
                 \<and> length p = i + j + 1
                 \<and> getName (hd p) = s \<and> getName (last p) = e)"
proof -
  have gi: "game_inv ev g" and rs: "root (startTree g) = Page s None"
    and re: "root (endTree g) = Page e None"
    using game_reach_inv[OF assms] by simp_all
  have 1: "\<exists>a \<in> set (endpoints (startTree g0)). \<exists>b \<in> set (endpoints (endTree g0)).
               getName a = getName mid \<and> getName b = getName mid
               \<and> p = rev (ancestors a) @ [mid] @ ancestors b"
    if "getPath g0 mid = Inr p" for g0 mid p
    using that by (rule getPath_Inr) blast
  have 2: "\<exists>a b m i j. p = rev (ancestors a) @ [m] @ ancestors b
                 \<and> getName a = getName m \<and> getName b = getName m
                 \<and> i < length (levels (startTree g)) \<and> a \<in> set (levels (startTree g) ! i)
                 \<and> j < length (levels (endTree g)) \<and> b \<in> set (levels (endTree g) ! j)
                 \<and> length p = i + j + 1
                 \<and> getName (hd p) = s \<and> getName (last p) = e"
    if "p \<in> set (paths g)" for p
  proof -
    have "path_ok g p" using gi that by (simp add: game_inv_def)
    with gi obtain a b m i j where h: "p = rev (ancestors a) @ [m] @ ancestors b"
      "getName a = getName m" "getName b = getName m"
      "i < length (levels (startTree g))" "a \<in> set (levels (startTree g) ! i)"
      "j < length (levels (endTree g))" "b \<in> set (levels (endTree g) ! j)"
      "length (ancestors a) = i" "length (ancestors b) = j"
      "linked ev True (a # ancestors a)" "linked ev False (b # ancestors b)"
      "last (a # ancestors a) = root (startTree g)" "last (b # ancestors b) = root (endTree g)"
      by (rule path_ok_shape)
    have len: "length p = i + j + 1" using h(1,8,9) by simp
    have ends: "getName (hd p) = s" "getName (last p) = e"
      using path_ok_ends[OF h(1,2,3,12,13)] rs re by simp_all
    show ?thesis using h(1-7) len ends by blast
  qed
  show ?thesis using 1 2 by blast
qed

lemma game_reach_AB_1: "game_reach ev_AB ''A'' ''B'' game_AB_1"
  by (rule reach_search[OF reach_Game search_AB])

theorem path_reconstruction_witness:
  "sched_ok ev_AB \<and> game_reach ev_AB ''A'' ''B'' game_AB_1
   \<and> (\<exists>a b m i j.
         [Page ''A'' None, Page ''B'' (Some (Page ''A'' None))] = rev (ancestors a) @ [m] @ ancestors b
         \<and> getName a = getName m \<and> getName b = getName m
         \<and> i < length (levels (startTree game_AB_1)) \<and> a \<in> set (levels (startTree game_AB_1) ! i)
         \<and> j < length (levels (endTree game_AB_1)) \<and> b \<in> set (levels (endTree game_AB_1) ! j)
         \<and> length [Page ''A'' None, Page ''B'' (Some (Page ''A'' None))] = i + j + 1
         \<and> getName (hd [Page ''A'' None, Page ''B'' (Some (Page ''A'' None))]) = ''A''
         \<and> getName (last [Page ''A'' None, Page ''B'' (Some (Page ''A'' None))]) = ''B'')"
proof -
  have "[Page ''A'' None, Page ''B'' (Some (Page ''A'' None))] \<in> set (paths game_AB_1)"
    by (simp add: game_AB_1_def)
  then show ?thesis
    using path_reconstruction[OF sched_ok_AB game_reach_AB_1] sched_ok_AB game_reach_AB_1
    by blast
qed

section \<open>A game whose start is its goal\<close>

lemma explore_loop_first:
  assumes ok: "sched_ok ev" and li: "loop_inv ev T g" and ob: "at_boundary (other_tree side g)"
    and lt: "searchIndex g < T"
    and run: "explore_loop ev side T False g = Some (Inr (flag, g'))"
  shows "2 \<le> length (levels (side_tree side g'))"
proof -
  have gi: "game_inv ev g" using li by (simp add: loop_inv_def)
  from run lt obtain t' okk new lastInQueue
    where e: "explore ev (side_tree side g) = Inr (t', okk, new, lastInQueue)"
    by (subst (asm) explore_loop.simps) (auto split: sum.splits)
  let ?g1 = "set_side_tree side t' g"
  note ge = game_inv_explore[OF ok gi ob e]
  have same: "paths ?g1 = paths g" "searchIndex ?g1 = searchIndex g"
    "other_tree side ?g1 = other_tree side g" "side_tree side ?g1 = t'"
    by (cases side; simp)+
  show ?thesis
  proof (cases okk)
    case False
    then have "g' = ?g1" using run lt e by (subst (asm) explore_loop.simps) auto
    then show ?thesis using ge(2) same(4) by simp
  next
    case True
    then obtain g2 where
      r: "record_paths T (iter ev (intersection (endpoints (other_tree side g)) new)) ?g1 = Inr g2"
      and l: "explore_loop ev side T lastInQueue g2 = Some (Inr (flag, g'))"
      using run lt e by (subst (asm) explore_loop.simps) (auto split: sum.splits)
    have mids: "\<forall>m \<in> set (iter ev (intersection (endpoints (other_tree side g)) new)).
                  \<exists>u \<in> set (last (levels (side_tree side ?g1))). getName u = getName m"
    proof
      fix m assume "m \<in> set (iter ev (intersection (endpoints (other_tree side g)) new))"
      then have "m \<in> set (intersection (endpoints (other_tree side g)) new)"
        using ok by (simp add: sched_ok_def)
      then have "getName m \<in> names new" using intersection_names by blast
      then obtain u where "u \<in> set new" "getName u = getName m" by (auto simp: names_def)
      then show "\<exists>u \<in> set (last (levels (side_tree side ?g1))). getName u = getName m"
        using ge(3) same(4) by auto
    qed
    have rp: "game_inv ev g2 \<and> startTree g2 = startTree ?g1 \<and> endTree g2 = endTree ?g1
              \<and> (\<exists>more. paths g2 = paths ?g1 @ more)
              \<and> searchIndex g2 \<le> T
              \<and> (searchIndex g2 < T \<longrightarrow> searchIndex g2 = int (length (paths g2)))
              \<and> searchIndex ?g1 \<le> searchIndex g2"
    proof (rule record_paths_inv[OF r ge(1), of side])
      show "at_boundary (other_tree side ?g1)" using ob same by simp
      show "2 \<le> length (levels (side_tree side ?g1))" using ge(2) same by simp
      show "\<forall>m \<in> set (iter ev (intersection (endpoints (other_tree side g)) new)).
              \<exists>u \<in> set (last (levels (side_tree side ?g1))). getName u = getName m"
        by (rule mids)
      show "searchIndex ?g1 \<le> T" using li same by (simp add: loop_inv_def)
      show "searchIndex ?g1 < T \<longrightarrow> searchIndex ?g1 = int (length (paths ?g1))"
        using li same by (simp add: loop_inv_def)
    qed
    have li2: "loop_inv ev T g2" using rp by (simp add: loop_inv_def)
    have ob2: "at_boundary (other_tree side g2)" using rp ob same(3) by (cases side) auto
    have t2: "side_tree side g2 = t'" using rp same(4) by (cases side) auto
    have "extends g2 g'" using explore_loop_inv[OF l] ok li2 ob2 by blast
    then have "length (levels (side_tree side g2)) \<le> length (levels (side_tree side g'))"
      by (cases side) (auto simp: extends_def)
    then show ?thesis using ge(2) t2 by simp
  qed
qed

lemma search_Game_explores:
  assumes ok: "sched_ok ev" and c: "0 < count"
    and s: "search ev count (Game s e) = Some (Inr (g', res, out))"
  shows "2 \<le> length (levels (startTree g'))"
proof -
  let ?G = "Game s e"
  have f: "endpoints (startTree ?G) \<noteq> []" "endpoints (endTree ?G) \<noteq> []"
    "searchIndex ?G = 0" "paths ?G = []"
    by (simp_all add: Game_def Tree_def)
  have g1: "?G\<lparr>searchIndex := 0\<rparr> = ?G" by (simp add: Game_def)
  have l: "search_loop ev count ?G = Some (Inr (out, g'))"
    using search_Inr(1)[OF f(1,2) s] f(3,4) g1 c by (simp add: min_def)
  have li: "loop_inv ev count ?G" using c f by (simp add: loop_inv_def game_inv_Game)
  obtain r where r: "explore_loop ev True count False ?G = Some r"
    and rr: "(case r of Inl e \<Rightarrow> Some (Inl e)
              | Inr (continue, g2) \<Rightarrow>
                  if continue then search_loop ev count g2
                  else Some (Inr (if choose_start ?G then NoPathsStarting else NoPathsEnding, g2)))
             = Some (Inr (out, g'))"
    using l c f(3) choose_start_Game[of s e]
    by (subst (asm) search_loop.simps) (auto simp: bind_eq_Some_conv)
  obtain cont g2 where rc: "r = Inr (cont, g2)" using rr by (cases r) auto
  have ob: "at_boundary (other_tree True ?G)" by (simp add: at_boundary_def Game_def Tree_def)
  have lt: "searchIndex ?G < count" using c f(3) by simp
  have two: "2 \<le> length (levels (startTree g2))"
    using explore_loop_first[OF ok li ob lt r[unfolded rc]] by simp
  have li2: "loop_inv ev count g2" using explore_loop_inv[OF r[unfolded rc]] ok li ob by blast
  show ?thesis
  proof (cases cont)
    case True
    then have "search_loop ev count g2 = Some (Inr (out, g'))" using rr rc by simp
    then have "extends g2 g'" using search_loop_inv ok li2 by blast
    then show ?thesis using two by (auto simp: extends_def)
  next
    case False
    then have "g' = g2" using rr rc by simp
    then show ?thesis using two by simp
  qed
qed

text \<open>
  C1, amended. On a game whose start and goal are the same page the roots are not
  compared: every path that \<open>search\<close> returns has at least two pages, and the first
  call with \<open>count > 0\<close> explores the starting tree, which has a second level when the
  call returns.
\<close>

theorem search_same_page:
  assumes "sched_ok ev" and "game_reach ev s s g"
    and "search ev count g = Some (Inr (g', res, out))"
  shows "(\<forall>p \<in> set res. 2 \<le> length p)
         \<and> (g = Game s s \<and> 0 < count \<longrightarrow> 2 \<le> length (levels (startTree g')))"
proof -
  have gi: "game_inv ev g" using game_reach_inv[OF assms(1,2)] by simp
  note si = search_inv[OF assms(1) gi assms(3)]
  have "\<forall>p \<in> set res. 2 \<le> length p" using si(1,3) by (auto simp: game_inv_def path_ok_def)
  moreover have "2 \<le> length (levels (startTree g'))" if "g = Game s s" "0 < count"
    using search_Game_explores[OF assms(1) that(2)] assms(3) that(1) by simp
  ultimately show ?thesis by blast
qed


lemma search_ABA:
  "search ev_ABA 1 (Game ''A'' ''A'') =
     Some (Inr (game_ABA_1,
                [[Page ''A'' None, Page ''B'' (Some (Page ''A'' None)), Page ''A'' None]],
                Finished))"
  by (simp add: eval_simps ev_ABA_def nb_ABA_def game_ABA_1_def)

theorem search_same_page_witness:
  "sched_ok ev_ABA \<and> game_reach ev_ABA ''A'' ''A'' (Game ''A'' ''A'')
   \<and> search ev_ABA 1 (Game ''A'' ''A'') =
       Some (Inr (game_ABA_1,
                  [[Page ''A'' None, Page ''B'' (Some (Page ''A'' None)), Page ''A'' None]],
                  Finished))
   \<and> 2 \<le> length [Page ''A'' None, Page ''B'' (Some (Page ''A'' None)), Page ''A'' None]
   \<and> 2 \<le> length (levels (startTree game_ABA_1))"
proof -
  have c: "(0::int) < 1" by simp
  have "2 \<le> length (levels (startTree game_ABA_1))"
    using search_same_page[OF sched_ok_ABA reach_Game search_ABA] c by blast
  then show ?thesis
    using sched_ok_ABA reach_Game[of ev_ABA "''A''" "''A''"] search_ABA by simp
qed

section \<open>The loops of search as one loop\<close>

lemma explore_loop_step:
  "explore_loop ev side T q g =
     (if \<not> q \<and> searchIndex g < T then
        (case explore_step ev T side g of
           Inl e \<Rightarrow> Some (Inl e)
         | Inr (ok, lastInQueue, g') \<Rightarrow>
             if \<not> ok then Some (Inr (False, g')) else explore_loop ev side T lastInQueue g')
      else Some (Inr (True, g)))"
  by (subst explore_loop.simps) (simp add: explore_step_def split: sum.splits)

lemma explore_loop_stop:
  "q \<or> \<not> searchIndex g < T \<Longrightarrow> explore_loop ev side T q g = Some (Inr (True, g))"
  by (subst explore_loop.simps) auto


lemma explore_step_inv:
  assumes ok: "sched_ok ev" and li: "loop_inv ev T g" and ob: "at_boundary (other_tree side g)"
    and st: "explore_step ev T side g = Inr (okk, lastInQueue, g')"
  shows "loop_inv ev T g'" and "extends g g'" and "other_tree side g' = other_tree side g"
    and "\<not> okk \<Longrightarrow> paths g' = paths g \<and> searchIndex g' = searchIndex g
                  \<and> endpoints (side_tree side g') = []"
    and "okk \<Longrightarrow> endpoints (side_tree side g') \<noteq> []"
    and "okk \<Longrightarrow> \<not> lastInQueue \<Longrightarrow> choose_start g' = side"
proof -
  have gi: "game_inv ev g" and le: "searchIndex g \<le> T"
    and eq: "searchIndex g < T \<longrightarrow> searchIndex g = int (length (paths g))"
    using li by (simp_all add: loop_inv_def)
  let ?t = "side_tree side g"
  from st obtain t' new lq where e: "explore ev ?t = Inr (t', okk, new, lq)"
    by (auto simp: explore_step_def split: sum.splits if_splits)
  let ?g1 = "set_side_tree side t' g"
  note ge = game_inv_explore[OF ok gi ob e]
  have inv: "tree_inv ?t" using gi by (cases side; simp add: game_inv_def)
  have ne: "queue ?t \<noteq> []" using e by (rule explore_Inr_queue)
  have pop: "pop ev (queue ?t) \<in> set (queue ?t)" using ok ne by (simp add: sched_ok_def)
  have res: "okk = explored_ok ev ?t"
    "lq = (remove_page (pop ev (queue ?t)) (queue ?t) = [] \<and> explored_ok ev ?t)"
    using explore_eq[OF inv ne pop] e by simp_all
  have inv': "tree_inv t'" using tree_inv_explored[OF inv ne pop] ge(4) by simp
  have same: "paths ?g1 = paths g" "searchIndex ?g1 = searchIndex g"
    "other_tree side ?g1 = other_tree side g" "side_tree side ?g1 = t'"
    by (cases side; simp)+
  have roots: "root (startTree ?g1) = root (startTree g)" "root (endTree ?g1) = root (endTree g)"
    "length (levels (startTree g)) \<le> length (levels (startTree ?g1))"
    "length (levels (endTree g)) \<le> length (levels (endTree ?g1))"
    using ge(4) explored_grows(2)[of "side_tree side g" ev] gi
    by (cases side; simp add: game_inv_def)+
  have all: "loop_inv ev T g' \<and> extends g g' \<and> other_tree side g' = other_tree side g
        \<and> (\<not> okk \<longrightarrow> paths g' = paths g \<and> searchIndex g' = searchIndex g
                  \<and> endpoints (side_tree side g') = [])
        \<and> (okk \<longrightarrow> endpoints (side_tree side g') \<noteq> [])
        \<and> (okk \<longrightarrow> \<not> lastInQueue \<longrightarrow> choose_start g' = side)"
  proof (cases okk)
    case False
    then have g': "g' = ?g1" using st e by (simp add: explore_step_def)
    have "remove_page (pop ev (queue ?t)) (queue ?t) = []" "grown ev ?t ! Suc (queueLevel ?t) = []"
      using False res(1) by (auto simp: explored_ok_def)
    then have "queue t' = []" "Suc (queueLevel t') = length (levels t')"
      using ge(4) length_grown[OF inv, of ev] by (simp_all add: queue_explored queueLevel_explored)
    then have "set (endpoints t') = {}" using inv' by (simp add: tree_inv_def)
    then have "endpoints (side_tree side g') = []" using g' same(4) by simp
    then show ?thesis using False g' ge(1) same le eq roots
      by (simp add: loop_inv_def extends_def)
  next
    case True
    then obtain g2 where
      r: "record_paths T (iter ev (intersection (endpoints (other_tree side g)) new)) ?g1 = Inr g2"
      and g': "g' = g2" and lq: "lastInQueue = lq"
      using st e by (auto simp: explore_step_def split: sum.splits)
    have mids: "\<forall>m \<in> set (iter ev (intersection (endpoints (other_tree side g)) new)).
                  \<exists>u \<in> set (last (levels (side_tree side ?g1))). getName u = getName m"
    proof
      fix m assume "m \<in> set (iter ev (intersection (endpoints (other_tree side g)) new))"
      then have "m \<in> set (intersection (endpoints (other_tree side g)) new)"
        using ok by (simp add: sched_ok_def)
      then have "getName m \<in> names new" using intersection_names by blast
      then obtain u where "u \<in> set new" "getName u = getName m" by (auto simp: names_def)
      then show "\<exists>u \<in> set (last (levels (side_tree side ?g1))). getName u = getName m"
        using ge(3) same(4) by auto
    qed
    have rp: "game_inv ev g2 \<and> startTree g2 = startTree ?g1 \<and> endTree g2 = endTree ?g1
              \<and> (\<exists>more. paths g2 = paths ?g1 @ more)
              \<and> searchIndex g2 \<le> T
              \<and> (searchIndex g2 < T \<longrightarrow> searchIndex g2 = int (length (paths g2)))
              \<and> searchIndex ?g1 \<le> searchIndex g2"
    proof (rule record_paths_inv[OF r ge(1), of side])
      show "at_boundary (other_tree side ?g1)" using ob same by simp
      show "2 \<le> length (levels (side_tree side ?g1))" using ge(2) same by simp
      show "\<forall>m \<in> set (iter ev (intersection (endpoints (other_tree side g)) new)).
              \<exists>u \<in> set (last (levels (side_tree side ?g1))). getName u = getName m"
        by (rule mids)
      show "searchIndex ?g1 \<le> T" using le same by simp
      show "searchIndex ?g1 < T \<longrightarrow> searchIndex ?g1 = int (length (paths ?g1))"
        using eq same by simp
    qed
    have li2: "loop_inv ev T g2" using rp by (simp add: loop_inv_def)
    have ex2: "extends g g2" using rp same roots by (auto simp: extends_def)
    have t2: "side_tree side g2 = t'" "other_tree side g2 = other_tree side g"
      using rp same by (cases side; auto)+
    have "queue t' \<noteq> []" using queue_explored_ok[of ev ?t] True res(1) ge(4) by simp
    moreover have "set (queue t') \<subseteq> set (endpoints t')" using inv' by (auto simp: tree_inv_def)
    ultimately have alive: "endpoints t' \<noteq> []" by auto
    have ch: "choose_start g2 = side" if "\<not> lastInQueue"
    proof -
      have "remove_page (pop ev (queue ?t)) (queue ?t) \<noteq> []" using that lq res True by simp
      then have mid: "queueLevel t' + 2 = length (levels t')"
        using ge(4) length_grown[OF inv, of ev] by (simp add: queueLevel_explored)
      show ?thesis
      proof (cases side)
        case True
        then show ?thesis using mid t2(1) by (simp add: choose_start_def)
      next
        case False
        then have "Suc (queueLevel (startTree g2)) = length (levels (startTree g2))"
          using ob t2(2) by (simp add: at_boundary_def)
        then show ?thesis using False mid t2(1) by (auto simp: choose_start_def)
      qed
    qed
    show ?thesis using True g' li2 ex2 t2 alive ch by simp
  qed
  show "loop_inv ev T g'" "extends g g'" "other_tree side g' = other_tree side g"
    "\<not> okk \<Longrightarrow> paths g' = paths g \<and> searchIndex g' = searchIndex g
                  \<and> endpoints (side_tree side g') = []"
    "okk \<Longrightarrow> endpoints (side_tree side g') \<noteq> []"
    "okk \<Longrightarrow> \<not> lastInQueue \<Longrightarrow> choose_start g' = side"
    using all by simp_all
qed


lemma flat_loop_step:
  assumes "searchIndex g < T" "explore_step ev T (choose_start g) g = Inr (True, lq, g2)"
  shows "flat_loop ev T g = flat_loop ev T g2"
  using assms by (subst flat_loop.simps) simp

lemma body_step:
  "(case explore ev (side_tree side g) of
      Inl e \<Rightarrow> Some (Inl e)
    | Inr (t', ok, new, lastInQueue) \<Rightarrow>
        if \<not> ok then Some (Inr (False, set_side_tree side t' g))
        else
          (case record_paths T (iter ev (intersection (endpoints (other_tree side g)) new))
                  (set_side_tree side t' g) of
             Inl e \<Rightarrow> Some (Inl e)
           | Inr g' \<Rightarrow> f lastInQueue g'))
   = (case explore_step ev T side g of
        Inl e \<Rightarrow> Some (Inl e)
      | Inr (ok, lastInQueue, g') \<Rightarrow>
          if \<not> ok then Some (Inr (False, g')) else f lastInQueue g')"
  by (simp add: explore_step_def split: sum.splits)

lemma explore_loop_flat:
  assumes "explore_loop ev side T q g = Some y"
  shows "sched_ok ev \<longrightarrow> loop_inv ev T g \<longrightarrow> at_boundary (other_tree side g) \<longrightarrow>
         (\<not> q \<longrightarrow> choose_start g = side) \<longrightarrow>
         flat_loop ev T g =
           (case y of Inl e \<Rightarrow> Some (Inl e)
            | Inr (cont, g') \<Rightarrow>
                if cont then flat_loop ev T g'
                else Some (Inr (if side then NoPathsStarting else NoPathsEnding, g')))"
proof (rule explore_loop.raw_induct[where P = "\<lambda>ev side T q g y.
         sched_ok ev \<longrightarrow> loop_inv ev T g \<longrightarrow> at_boundary (other_tree side g) \<longrightarrow>
         (\<not> q \<longrightarrow> choose_start g = side) \<longrightarrow>
         flat_loop ev T g =
           (case y of Inl e \<Rightarrow> Some (Inl e)
            | Inr (cont, g') \<Rightarrow>
                if cont then flat_loop ev T g'
                else Some (Inr (if side then NoPathsStarting else NoPathsEnding, g')))", OF _ assms],
       goal_cases)
  case (1 loop ev side T q g y)
  have body: "(if \<not> q \<and> searchIndex g < T then
        (case explore_step ev T side g of
           Inl e \<Rightarrow> Some (Inl e)
         | Inr (ok, lastInQueue, g') \<Rightarrow>
             if \<not> ok then Some (Inr (False, g')) else loop ev side T lastInQueue g')
      else Some (Inr (True, g))) = Some y"
    using 1(2) by (simp only: body_step[where f = "loop ev side T"])
  show ?case
  proof (intro impI)
    assume ok: "sched_ok ev" and li: "loop_inv ev T g" and ob: "at_boundary (other_tree side g)"
      and ch: "\<not> q \<longrightarrow> choose_start g = side"
    show "flat_loop ev T g =
           (case y of Inl e \<Rightarrow> Some (Inl e)
            | Inr (cont, g') \<Rightarrow>
                if cont then flat_loop ev T g'
                else Some (Inr (if side then NoPathsStarting else NoPathsEnding, g')))"
    proof (cases "\<not> q \<and> searchIndex g < T")
      case False
      then have "y = Inr (True, g)" using body by auto
      then show ?thesis by simp
    next
      case True
      then have cs: "choose_start g = side" and lt: "searchIndex g < T" using ch by simp_all
      show ?thesis
      proof (cases "explore_step ev T side g")
        case (Inl e)
        then have "y = Inl e" using body True by simp
        then show ?thesis using Inl cs lt by (subst flat_loop.simps) simp
      next
        case (Inr r)
        obtain okk lq g2 where r: "r = (okk, lq, g2)" by (cases r)
        note st = Inr[unfolded r]
        note si = explore_step_inv[OF ok li ob st]
        show ?thesis
        proof (cases okk)
          case False
          then have "y = Inr (False, g2)" using body True st by simp
          then show ?thesis using st cs lt False by (subst flat_loop.simps) simp
        next
          case okk: True
          then have l: "loop ev side T lq g2 = Some y" using body True st by simp
          have "at_boundary (other_tree side g2)" using si(3) ob by simp
          moreover have "\<not> lq \<longrightarrow> choose_start g2 = side" using si(6) okk by simp
          ultimately have "flat_loop ev T g2 =
             (case y of Inl e \<Rightarrow> Some (Inl e)
              | Inr (cont, g') \<Rightarrow>
                  if cont then flat_loop ev T g'
                  else Some (Inr (if side then NoPathsStarting else NoPathsEnding, g')))"
            using 1(1)[OF l] ok si(1) by blast
          moreover have "flat_loop ev T g = flat_loop ev T g2"
            using flat_loop_step[OF lt] st cs okk by simp
          ultimately show ?thesis by simp
        qed
      qed
    qed
  qed
qed

lemma search_loop_flat:
  assumes "search_loop ev T g = Some z"
  shows "sched_ok ev \<longrightarrow> loop_inv ev T g \<longrightarrow> flat_loop ev T g = Some z"
proof (rule search_loop.raw_induct[where P = "\<lambda>ev T g z.
         sched_ok ev \<longrightarrow> loop_inv ev T g \<longrightarrow> flat_loop ev T g = Some z", OF _ assms],
       goal_cases)
  case (1 loop ev T g z)
  show ?case
  proof (intro impI)
    assume ok: "sched_ok ev" and li: "loop_inv ev T g"
    show "flat_loop ev T g = Some z"
    proof (cases "searchIndex g < T")
      case False
      then have "z = Inr (Finished, g)" using 1(2) by simp
      then show ?thesis using False by (subst flat_loop.simps) simp
    next
      case True
      then obtain r where r: "explore_loop ev (choose_start g) T False g = Some r"
        and rr: "(case r of Inl e \<Rightarrow> Some (Inl e)
                  | Inr (continue, g') \<Rightarrow>
                      if continue then loop ev T g'
                      else Some (Inr (if choose_start g then NoPathsStarting else NoPathsEnding, g')))
                 = Some z"
        using 1(2) by (auto simp: bind_eq_Some_conv)
      have ob: "at_boundary (other_tree (choose_start g) g)"
        using li by (intro choose_other_boundary[of ev]) (simp add: loop_inv_def)
      have fl: "flat_loop ev T g =
           (case r of Inl e \<Rightarrow> Some (Inl e)
            | Inr (cont, g') \<Rightarrow>
                if cont then flat_loop ev T g'
                else Some (Inr (if choose_start g then NoPathsStarting else NoPathsEnding, g')))"
        using explore_loop_flat[OF r] ok li ob by simp
      show ?thesis
      proof (cases r)
        case (Inl e)
        then show ?thesis using fl rr by simp
      next
        case (Inr c)
        obtain cont g1 where c: "c = (cont, g1)" by (cases c)
        have li1: "loop_inv ev T g1" using explore_loop_inv[OF r] ok li ob Inr c by blast
        show ?thesis
        proof (cases cont)
          case True
          then have "loop ev T g1 = Some z" using rr Inr c by simp
          then have "flat_loop ev T g1 = Some z" using 1(1) ok li1 by blast
          then show ?thesis using fl Inr c True by simp
        next
          case False
          then show ?thesis using fl rr Inr c by simp
        qed
      qed
    qed
  qed
qed

lemma flat_loop_search:
  assumes "flat_loop ev T g = Some z"
  shows "sched_ok ev \<longrightarrow> loop_inv ev T g \<longrightarrow> search_loop ev T g = Some z"
proof (rule flat_loop.raw_induct[where P = "\<lambda>ev T g z.
         sched_ok ev \<longrightarrow> loop_inv ev T g \<longrightarrow> search_loop ev T g = Some z", OF _ assms],
       goal_cases)
  case (1 loop ev T g z)
  show ?case
  proof (intro impI)
    assume ok: "sched_ok ev" and li: "loop_inv ev T g"
    let ?side = "choose_start g"
    have ob: "at_boundary (other_tree ?side g)"
      using li by (intro choose_other_boundary[of ev]) (simp add: loop_inv_def)
    show "search_loop ev T g = Some z"
    proof (cases "searchIndex g < T")
      case False
      then have "z = Inr (Finished, g)" using 1(2) by simp
      then show ?thesis using False by (simp add: search_loop_done)
    next
      case True
      show ?thesis
      proof (cases "explore_step ev T ?side g")
        case (Inl e)
        then have "z = Inl e" using 1(2) True by simp
        moreover have "explore_loop ev ?side T False g = Some (Inl e)"
          using Inl True by (subst explore_loop_step) simp
        ultimately show ?thesis using True by (subst search_loop.simps) simp
      next
        case (Inr r)
        obtain okk lq g2 where r: "r = (okk, lq, g2)" by (cases r)
        note st = Inr[unfolded r]
        note si = explore_step_inv[OF ok li ob st]
        show ?thesis
        proof (cases okk)
          case False
          then have "z = Inr (if ?side then NoPathsStarting else NoPathsEnding, g2)"
            using 1(2) True st by simp
          moreover have "explore_loop ev ?side T False g = Some (Inr (False, g2))"
            using st True False by (subst explore_loop_step) simp
          ultimately show ?thesis using True by (subst search_loop.simps) simp
        next
          case okk: True
          then have "loop ev T g2 = Some z" using 1(2) True st by simp
          then have ih: "search_loop ev T g2 = Some z" using 1(1) ok si(1) by blast
          have el: "explore_loop ev ?side T False g = explore_loop ev ?side T lq g2"
            using st True okk by (subst explore_loop_step) simp
          show ?thesis
          proof (cases "lq \<or> \<not> searchIndex g2 < T")
            case stop: True
            then have "explore_loop ev ?side T lq g2 = Some (Inr (True, g2))"
              by (rule explore_loop_stop)
            then show ?thesis using el ih True by (subst search_loop.simps) simp
          next
            case go: False
            then have cs: "choose_start g2 = ?side" using si(6) okk by simp
            have "search_loop ev T g2 =
                    Option.bind (explore_loop ev ?side T False g2)
                      (\<lambda>r. case r of
                             Inl e \<Rightarrow> Some (Inl e)
                           | Inr (continue, g') \<Rightarrow>
                               if continue then search_loop ev T g'
                               else Some (Inr (if ?side then NoPathsStarting else NoPathsEnding, g')))"
              using go cs by (subst search_loop.simps) simp
            moreover have "explore_loop ev ?side T lq g2 = explore_loop ev ?side T False g2"
              using go by simp
            ultimately show ?thesis using el ih True by (subst search_loop.simps) simp
          qed
        qed
      qed
    qed
  qed
qed

lemma search_loop_eq_flat:
  assumes "sched_ok ev" "loop_inv ev T g"
  shows "search_loop ev T g = flat_loop ev T g"
proof (cases "search_loop ev T g")
  case None
  show ?thesis
  proof (cases "flat_loop ev T g")
    case (Some z)
    then show ?thesis using flat_loop_search assms None by fastforce
  qed (simp add: None)
next
  case (Some z)
  then show ?thesis using search_loop_flat assms by fastforce
qed

section \<open>A search in two calls\<close>

lemma cap_id: "searchIndex g \<le> k \<Longrightarrow> cap k g = g"
  by (simp add: cap_def min_def)

lemma cap_simps [simp]:
  "startTree (cap k g) = startTree g" "endTree (cap k g) = endTree g"
  "paths (cap k g) = paths g" "searchIndex (cap k g) = min k (searchIndex g)"
  by (simp_all add: cap_def)

lemma getPath_searchIndex [simp]: "getPath (g\<lparr>searchIndex := k\<rparr>) m = getPath g m"
  by (simp add: getPath_def cong: option.case_cong)

lemma record_paths_cap:
  assumes "T1 \<le> T"
  shows "record_paths T1 mids (cap T1 g) = map_sum id (cap T1) (record_paths T mids g)"
proof (induction mids arbitrary: g)
  case Nil
  show ?case by simp
next
  case (Cons m mids)
  show ?case
  proof (cases "getPath g m")
    case (Inl e)
    then show ?thesis by (simp add: cap_def)
  next
    case (Inr p)
    let ?g2 = "g\<lparr>searchIndex := (if searchIndex g < T then searchIndex g + 1 else searchIndex g),
                  paths := paths g @ [p]\<rparr>"
    have eq: "(cap T1 g)\<lparr>searchIndex := (if searchIndex (cap T1 g) < T1 then searchIndex (cap T1 g) + 1
                                       else searchIndex (cap T1 g)),
                      paths := paths (cap T1 g) @ [p]\<rparr> = cap T1 ?g2"
      using assms by (cases g) (simp add: cap_def min_def)
    have gp: "getPath (cap T1 g) m = Inr p" using Inr by (simp add: cap_def)
    have "record_paths T1 (m # mids) (cap T1 g) =
            record_paths T1 mids
              ((cap T1 g)\<lparr>searchIndex := (if searchIndex (cap T1 g) < T1 then searchIndex (cap T1 g) + 1
                                       else searchIndex (cap T1 g)),
                      paths := paths (cap T1 g) @ [p]\<rparr>)"
      by (simp only: record_paths.simps gp sum.case)
    then have "record_paths T1 (m # mids) (cap T1 g) = record_paths T1 mids (cap T1 ?g2)"
      by (simp only: eq)
    moreover have "record_paths T (m # mids) g = record_paths T mids ?g2"
      by (simp only: record_paths.simps Inr sum.case)
    ultimately show ?thesis using Cons.IH[of ?g2] by simp
  qed
qed

lemma explore_step_cap:
  assumes "T1 \<le> T" "searchIndex g < T1"
  shows "explore_step ev T1 side g =
           map_sum id (\<lambda>(ok, lq, g'). (ok, lq, cap T1 g')) (explore_step ev T side g)"
proof (cases "explore ev (side_tree side g)")
  case (Inl e)
  then show ?thesis by (simp add: explore_step_def)
next
  case (Inr r)
  obtain t' okk new lq where r: "r = (t', okk, new, lq)" by (cases r)
  let ?g1 = "set_side_tree side t' g"
  have g1: "cap T1 ?g1 = ?g1" using assms(2) by (intro cap_id) (cases side; simp)
  show ?thesis
  proof (cases okk)
    case False
    then show ?thesis using Inr r g1 by (simp add: explore_step_def)
  next
    case True
    have "record_paths T1 (iter ev (intersection (endpoints (other_tree side g)) new)) ?g1
          = map_sum id (cap T1)
              (record_paths T (iter ev (intersection (endpoints (other_tree side g)) new)) ?g1)"
      using record_paths_cap[OF assms(1), of _ ?g1] g1 by simp
    then show ?thesis using Inr r True by (simp add: explore_step_def split: sum.splits)
  qed
qed

lemma loop_inv_searchIndex:
  assumes "loop_inv ev T g"
  shows "g\<lparr>searchIndex := min T (int (length (paths g)))\<rparr> = g"
proof -
  have "searchIndex g \<le> T" "searchIndex g < T \<longrightarrow> searchIndex g = int (length (paths g))"
    "searchIndex g \<le> int (length (paths g))"
    using assms by (simp_all add: loop_inv_def game_inv_def)
  then have "min T (int (length (paths g))) = searchIndex g" by (auto simp: min_def)
  then show ?thesis by simp
qed

lemma flat_loop_done: "\<not> searchIndex g < T \<Longrightarrow> flat_loop ev T g = Some (Inr (Finished, g))"
  by (subst flat_loop.simps) simp


lemma flat_loop_alive:
  assumes "flat_loop ev T g = Some z"
  shows "sched_ok ev \<longrightarrow> loop_inv ev T g \<longrightarrow> alive g \<longrightarrow>
         (\<forall>out g'. z = Inr (out, g') \<longrightarrow>
            (out = Finished \<longrightarrow> alive g')
            \<and> (out = NoPathsStarting \<longrightarrow> endpoints (startTree g') = [])
            \<and> (out = NoPathsEnding \<longrightarrow>
                  endpoints (startTree g') \<noteq> [] \<and> endpoints (endTree g') = []))"
proof (rule flat_loop.raw_induct[where P = "\<lambda>ev T g z.
         sched_ok ev \<longrightarrow> loop_inv ev T g \<longrightarrow> alive g \<longrightarrow>
         (\<forall>out g'. z = Inr (out, g') \<longrightarrow>
            (out = Finished \<longrightarrow> alive g')
            \<and> (out = NoPathsStarting \<longrightarrow> endpoints (startTree g') = [])
            \<and> (out = NoPathsEnding \<longrightarrow>
                  endpoints (startTree g') \<noteq> [] \<and> endpoints (endTree g') = []))", OF _ assms],
       goal_cases)
  case (1 loop ev T g z)
  show ?case
  proof (intro impI allI)
    fix out g'
    assume ok: "sched_ok ev" and li: "loop_inv ev T g" and al: "alive g" and z: "z = Inr (out, g')"
    let ?side = "choose_start g"
    have ob: "at_boundary (other_tree ?side g)"
      using li by (intro choose_other_boundary[of ev]) (simp add: loop_inv_def)
    show "(out = Finished \<longrightarrow> alive g')
            \<and> (out = NoPathsStarting \<longrightarrow> endpoints (startTree g') = [])
            \<and> (out = NoPathsEnding \<longrightarrow>
                  endpoints (startTree g') \<noteq> [] \<and> endpoints (endTree g') = [])"
    proof (cases "searchIndex g < T")
      case False
      then have "out = Finished" "g' = g" using 1(2) z by simp_all
      then show ?thesis using al by simp
    next
      case True
      then obtain okk lq g2 where st: "explore_step ev T ?side g = Inr (okk, lq, g2)"
        using 1(2) z by (cases "explore_step ev T ?side g") auto
      note si = explore_step_inv[OF ok li ob st]
      show ?thesis
      proof (cases okk)
        case False
        then have o: "out = (if ?side then NoPathsStarting else NoPathsEnding)" "g' = g2"
          using 1(2) z True st by simp_all
        show ?thesis using o si(3,4) False al by (cases ?side) (auto simp: alive_def)
      next
        case okk: True
        then have l: "loop ev T g2 = Some z" using 1(2) True st by simp
        have "alive g2" using si(3,5) okk al by (cases ?side) (auto simp: alive_def)
        then show ?thesis using 1(1)[OF l] ok si(1) z by blast
      qed
    qed
  qed
qed

lemma flat_split_fwd:
  assumes "flat_loop ev T g = Some z"
  shows "flat_loop ev T g = Some z \<longrightarrow>
         (\<forall>T1 out gf. z = Inr (out, gf) \<longrightarrow> T1 \<le> T \<longrightarrow> sched_ok ev \<longrightarrow> loop_inv ev T g \<longrightarrow>
            (\<exists>o1 g1. flat_loop ev T1 (cap T1 g) = Some (Inr (o1, g1))
               \<and> (if o1 = Finished
                   then flat_loop ev T (g1\<lparr>searchIndex := min T (int (length (paths g1)))\<rparr>)
                        = Some (Inr (out, gf))
                   else o1 = out \<and> g1 = gf)))"
proof (rule flat_loop.raw_induct[where P = "\<lambda>ev T g z. flat_loop ev T g = Some z \<longrightarrow>
         (\<forall>T1 out gf. z = Inr (out, gf) \<longrightarrow> T1 \<le> T \<longrightarrow> sched_ok ev \<longrightarrow> loop_inv ev T g \<longrightarrow>
            (\<exists>o1 g1. flat_loop ev T1 (cap T1 g) = Some (Inr (o1, g1))
               \<and> (if o1 = Finished
                   then flat_loop ev T (g1\<lparr>searchIndex := min T (int (length (paths g1)))\<rparr>)
                        = Some (Inr (out, gf))
                   else o1 = out \<and> g1 = gf)))", OF _ assms],
       goal_cases)
  case (1 loop ev T g z)
  show ?case
  proof (intro impI allI)
    fix T1 out gf
    assume real: "flat_loop ev T g = Some z" and z: "z = Inr (out, gf)" and le: "T1 \<le> T"
      and ok: "sched_ok ev" and li: "loop_inv ev T g"
    let ?side = "choose_start g"
    have ob: "at_boundary (other_tree ?side g)"
      using li by (intro choose_other_boundary[of ev]) (simp add: loop_inv_def)
    show "\<exists>o1 g1. flat_loop ev T1 (cap T1 g) = Some (Inr (o1, g1))
               \<and> (if o1 = Finished
                   then flat_loop ev T (g1\<lparr>searchIndex := min T (int (length (paths g1)))\<rparr>)
                        = Some (Inr (out, gf))
                   else o1 = out \<and> g1 = gf)"
    proof (cases "searchIndex g < T1")
      case False
      have "flat_loop ev T1 (cap T1 g) = Some (Inr (Finished, cap T1 g))"
        using False by (intro flat_loop_done) simp
      moreover have "(cap T1 g)\<lparr>searchIndex := min T (int (length (paths (cap T1 g))))\<rparr> = g"
        using loop_inv_searchIndex[OF li] by (simp add: cap_def)
      ultimately show ?thesis using real z by auto
    next
      case True
      then have lt: "searchIndex g < T" and c: "cap T1 g = g" using le by (simp_all add: cap_id)
      obtain okk lq g2 where st: "explore_step ev T ?side g = Inr (okk, lq, g2)"
        using 1(2) z lt by (cases "explore_step ev T ?side g") auto
      have st1: "explore_step ev T1 ?side g = Inr (okk, lq, cap T1 g2)"
        using explore_step_cap[OF le True, of ev ?side] st by simp
      note si = explore_step_inv[OF ok li ob st]
      show ?thesis
      proof (cases okk)
        case False
        then have o: "out = (if ?side then NoPathsStarting else NoPathsEnding)" "gf = g2"
          using 1(2) z lt st by simp_all
        have "cap T1 g2 = g2" using si(4) False True by (intro cap_id) simp
        then have "flat_loop ev T1 g = Some (Inr (out, gf))"
          using st1 True False o by (subst flat_loop.simps) simp
        then show ?thesis using c o by (cases ?side) auto
      next
        case okk: True
        then have l: "loop ev T g2 = Some z" using 1(2) lt st by simp
        have real2: "flat_loop ev T g2 = Some z"
          using real flat_loop_step[OF lt, of ev lq g2] st okk by simp
        have "\<exists>o1 g1. flat_loop ev T1 (cap T1 g2) = Some (Inr (o1, g1))
               \<and> (if o1 = Finished
                   then flat_loop ev T (g1\<lparr>searchIndex := min T (int (length (paths g1)))\<rparr>)
                        = Some (Inr (out, gf))
                   else o1 = out \<and> g1 = gf)"
          using 1(1)[OF l] real2 z le ok si(1) by blast
        moreover have "flat_loop ev T1 g = flat_loop ev T1 (cap T1 g2)"
          using flat_loop_step[OF True, of ev lq "cap T1 g2"] st1 okk by simp
        ultimately show ?thesis using c by simp
      qed
    qed
  qed
qed

lemma flat_split_bwd:
  assumes "flat_loop ev T1 h = Some z1"
  shows "\<forall>o1 g1 g T z. z1 = Inr (o1, g1) \<longrightarrow> h = cap T1 g \<longrightarrow> T1 \<le> T \<longrightarrow> sched_ok ev \<longrightarrow>
           loop_inv ev T g \<longrightarrow>
           (if o1 = Finished
            then flat_loop ev T (g1\<lparr>searchIndex := min T (int (length (paths g1)))\<rparr>) = Some z
            else z = Inr (o1, g1)) \<longrightarrow>
           flat_loop ev T g = Some z"
proof (rule flat_loop.raw_induct[where P = "\<lambda>ev T1 h z1.
         \<forall>o1 g1 g T z. z1 = Inr (o1, g1) \<longrightarrow> h = cap T1 g \<longrightarrow> T1 \<le> T \<longrightarrow> sched_ok ev \<longrightarrow>
           loop_inv ev T g \<longrightarrow>
           (if o1 = Finished
            then flat_loop ev T (g1\<lparr>searchIndex := min T (int (length (paths g1)))\<rparr>) = Some z
            else z = Inr (o1, g1)) \<longrightarrow>
           flat_loop ev T g = Some z", OF _ assms],
       goal_cases)
  case (1 loop ev T1 h z1)
  show ?case
  proof (intro impI allI)
    fix o1 g1 g T z
    assume z1: "z1 = Inr (o1, g1)" and h: "h = cap T1 g" and le: "T1 \<le> T"
      and ok: "sched_ok ev" and li: "loop_inv ev T g"
      and rest: "if o1 = Finished
            then flat_loop ev T (g1\<lparr>searchIndex := min T (int (length (paths g1)))\<rparr>) = Some z
            else z = Inr (o1, g1)"
    let ?side = "choose_start g"
    have cs: "choose_start h = ?side" using h by (simp add: choose_start_def)
    have ob: "at_boundary (other_tree ?side g)"
      using li by (intro choose_other_boundary[of ev]) (simp add: loop_inv_def)
    show "flat_loop ev T g = Some z"
    proof (cases "searchIndex g < T1")
      case False
      then have "\<not> searchIndex h < T1" using h by simp
      then have "o1 = Finished" "g1 = cap T1 g" using 1(2) z1 h by simp_all
      moreover have "(cap T1 g)\<lparr>searchIndex := min T (int (length (paths (cap T1 g))))\<rparr> = g"
        using loop_inv_searchIndex[OF li] by (simp add: cap_def)
      ultimately show ?thesis using rest by simp
    next
      case True
      then have lt: "searchIndex g < T" and c: "h = g" using le h by (simp_all add: cap_id)
      note cap1 = explore_step_cap[OF le True, of ev ?side]
      show ?thesis
      proof (cases "explore_step ev T ?side g")
        case (Inl e)
        then have "explore_step ev T1 ?side g = Inl e" using cap1 by simp
        then show ?thesis using 1(2) z1 c True by simp
      next
        case (Inr r)
        obtain okk lq g2 where r: "r = (okk, lq, g2)" by (cases r)
        note st = Inr[unfolded r]
        have st1: "explore_step ev T1 ?side g = Inr (okk, lq, cap T1 g2)"
          using cap1 st by simp
        note si = explore_step_inv[OF ok li ob st]
        show ?thesis
        proof (cases okk)
          case False
          have "cap T1 g2 = g2" using si(4) False True by (intro cap_id) simp
          then have "o1 = (if ?side then NoPathsStarting else NoPathsEnding)" "g1 = g2"
            using 1(2) z1 c True st1 False by simp_all
          then have "z = Inr (if ?side then NoPathsStarting else NoPathsEnding, g2)"
            using rest by (cases ?side) auto
          then show ?thesis using st lt False by (subst flat_loop.simps) simp
        next
          case okk: True
          then have l: "loop ev T1 (cap T1 g2) = Some z1" using 1(2) c True st1 by simp
          have "flat_loop ev T g2 = Some z"
            using 1(1)[OF l] z1 le ok si(1) rest by blast
          then show ?thesis using flat_loop_step[OF lt, of ev lq g2] st okk by simp
        qed
      qed
    qed
  qed
qed


lemma search_not_alive:
  assumes "\<not> alive g"
  shows "search ev count g =
           Some (Inr (g, [], if endpoints (startTree g) = [] then NoPathsStarting else NoPathsEnding))"
  using assms by (auto simp: search_def Let_def alive_def)

lemma search_alive:
  assumes ok: "sched_ok ev" and gi: "game_inv ev g" and al: "alive g" and c: "0 \<le> count"
  shows "loop_inv ev (searchIndex g + count)
           (g\<lparr>searchIndex := min (searchIndex g + count) (int (length (paths g)))\<rparr>)"
    and "search ev count g =
           Option.bind
             (flat_loop ev (searchIndex g + count)
                (g\<lparr>searchIndex := min (searchIndex g + count) (int (length (paths g)))\<rparr>))
             (\<lambda>r. case r of
                    Inl e \<Rightarrow> Some (Inl e)
                  | Inr (out, g2) \<Rightarrow>
                      Some (Inr (g2, py_slice (searchIndex g) (searchIndex g + count) (paths g2),
                                 out)))"
proof -
  let ?T = "searchIndex g + count"
  let ?G = "g\<lparr>searchIndex := min ?T (int (length (paths g)))\<rparr>"
  have si: "0 \<le> searchIndex g" "searchIndex g \<le> int (length (paths g))"
    using gi by (simp_all add: game_inv_def)
  have gi1: "game_inv ev ?G" using gi si c unfolding game_inv_def by auto
  show li: "loop_inv ev ?T ?G" using gi1 si c by (auto simp: loop_inv_def)
  have "searchIndex g + max 0 (min ?T (int (length (paths g))) - searchIndex g)
        = min ?T (int (length (paths g)))"
    using si c by simp
  then have "search ev count g =
           Option.bind (search_loop ev ?T ?G)
             (\<lambda>r. case r of
                    Inl e \<Rightarrow> Some (Inl e)
                  | Inr (out, g2) \<Rightarrow>
                      Some (Inr (g2, py_slice (searchIndex g) ?T (paths g2), out)))"
    using al by (simp add: search_def Let_def alive_def)
  then show "search ev count g =
           Option.bind (flat_loop ev ?T ?G)
             (\<lambda>r. case r of
                    Inl e \<Rightarrow> Some (Inl e)
                  | Inr (out, g2) \<Rightarrow>
                      Some (Inr (g2, py_slice (searchIndex g) ?T (paths g2), out)))"
    using search_loop_eq_flat[OF ok li] by simp
qed

lemma search_alive_Inr:
  assumes ok: "sched_ok ev" and gi: "game_inv ev g" and al: "alive g" and c: "0 \<le> count"
  shows "search ev count g = Some (Inr (g', res, out)) \<longleftrightarrow>
           flat_loop ev (searchIndex g + count)
             (g\<lparr>searchIndex := min (searchIndex g + count) (int (length (paths g)))\<rparr>)
           = Some (Inr (out, g'))
           \<and> res = py_slice (searchIndex g) (searchIndex g + count) (paths g')"
proof -
  let ?f = "flat_loop ev (searchIndex g + count)
             (g\<lparr>searchIndex := min (searchIndex g + count) (int (length (paths g)))\<rparr>)"
  show ?thesis
  proof (cases ?f)
    case None
    then show ?thesis using search_alive(2)[OF assms] by simp
  next
    case (Some r)
    show ?thesis
    proof (cases r)
      case (Inl e)
      then show ?thesis using search_alive(2)[OF assms] Some by simp
    next
      case (Inr c)
      obtain o2 g2 where "c = (o2, g2)" by (cases c)
      then show ?thesis using search_alive(2)[OF assms] Some Inr by auto
    qed
  qed
qed

lemma drop_take_append:
  assumes "n \<le> m" "m \<le> k"
  shows "drop n (take m xs) @ drop m (take k xs) = drop n (take k xs)"
proof -
  have tk: "take m xs = take m (take k xs)" using assms(2) by (simp add: min_def)
  have dr: "drop n (take m ys) @ drop m ys = drop n ys" for ys :: "'a list"
  proof (cases "m \<le> length ys")
    case True
    have "drop n (take m ys @ drop m ys) = drop n (take m ys) @ drop (n - length (take m ys)) (drop m ys)"
      by (rule drop_append)
    then show ?thesis using True assms(1) by (simp add: min_def)
  next
    case False
    then show ?thesis by simp
  qed
  show ?thesis using dr[of "take k xs"] by (simp only: tk)
qed

lemma split_results:
  assumes ok: "sched_ok ev" and gi: "game_inv ev g" and a: "0 \<le> a" and b: "0 \<le> b"
    and s5: "search ev (a + b) g = Some (Inr (g5, r5, o5))"
    and s3: "search ev a g = Some (Inr (g3, r3, o3))"
    and s2: "search ev b g3 = Some (Inr (g5, r2, o2))"
  shows "r3 @ r2 = r5"
proof -
  have ab: "0 \<le> a + b" using a b by simp
  note i5 = search_inv[OF ok gi s5]
  note i3 = search_inv[OF ok gi s3]
  note i2 = search_inv[OF ok i3(1) s2]
  have r5: "r5 = drop (nat (searchIndex g)) (take (nat (searchIndex g5)) (paths g5))"
    by (rule i5(4)[OF ab])
  have r3: "r3 = drop (nat (searchIndex g)) (take (nat (searchIndex g3)) (paths g3))"
    by (rule i3(4)[OF a])
  have r2: "r2 = drop (nat (searchIndex g3)) (take (nat (searchIndex g5)) (paths g5))"
    by (rule i2(4)[OF b])
  obtain more where more: "paths g5 = paths g3 @ more" and le2: "searchIndex g3 \<le> searchIndex g5"
    using i2(2) by (auto simp: extends_def)
  have le1: "searchIndex g \<le> searchIndex g3" using i3(2) by (simp add: extends_def)
  have "searchIndex g3 \<le> int (length (paths g3))" using i3(1) by (simp add: game_inv_def)
  then have "take (nat (searchIndex g3)) (paths g3) = take (nat (searchIndex g3)) (paths g5)"
    using more by simp
  then have "r3 @ r2 = drop (nat (searchIndex g)) (take (nat (searchIndex g3)) (paths g5))
                       @ drop (nat (searchIndex g3)) (take (nat (searchIndex g5)) (paths g5))"
    using r3 r2 by simp
  also have "\<dots> = drop (nat (searchIndex g)) (take (nat (searchIndex g5)) (paths g5))"
    using le1 le2 by (intro drop_take_append) simp_all
  finally show ?thesis using r5 by simp
qed


lemma flat_loop_post:
  assumes ok: "sched_ok ev" and li: "loop_inv ev T g" and al: "alive g"
    and f: "flat_loop ev T g = Some (Inr (out, g'))"
  shows "loop_inv ev T g'" and "out = Finished \<Longrightarrow> searchIndex g' = T \<and> alive g'"
    and "out \<noteq> Finished \<Longrightarrow>
           \<not> alive g' \<and> searchIndex g' = int (length (paths g'))
           \<and> out = (if endpoints (startTree g') = [] then NoPathsStarting else NoPathsEnding)"
proof -
  have sl: "search_loop ev T g = Some (Inr (out, g'))" using search_loop_eq_flat[OF ok li] f by simp
  have p: "loop_inv ev T g'" "out = Finished \<longrightarrow> searchIndex g' = T"
    "out \<noteq> Finished \<longrightarrow> searchIndex g' < T"
    using search_loop_inv[OF sl] ok li by blast+
  have q: "out = Finished \<longrightarrow> alive g'" "out = NoPathsStarting \<longrightarrow> endpoints (startTree g') = []"
    "out = NoPathsEnding \<longrightarrow> endpoints (startTree g') \<noteq> [] \<and> endpoints (endTree g') = []"
    using flat_loop_alive[OF f] ok li al by blast+
  show "loop_inv ev T g'" by (rule p(1))
  show "out = Finished \<Longrightarrow> searchIndex g' = T \<and> alive g'" using p(2) q(1) by simp
  show "out \<noteq> Finished \<Longrightarrow>
           \<not> alive g' \<and> searchIndex g' = int (length (paths g'))
           \<and> out = (if endpoints (startTree g') = [] then NoPathsStarting else NoPathsEnding)"
    using p(1,3) q(2,3) by (cases out) (auto simp: loop_inv_def alive_def)
qed

lemma search_split_fwd:
  assumes ok: "sched_ok ev" and gi: "game_inv ev g" and a: "0 \<le> a" and b: "0 \<le> b"
    and s5: "search ev (a + b) g = Some (Inr (g5, r5, o5))"
  shows "\<exists>g3 r3 o3 r2. search ev a g = Some (Inr (g3, r3, o3))
           \<and> search ev b g3 = Some (Inr (g5, r2, o5)) \<and> r3 @ r2 = r5"
proof (cases "alive g")
  case False
  have e: "g5 = g" "r5 = []"
    "o5 = (if endpoints (startTree g) = [] then NoPathsStarting else NoPathsEnding)"
    using s5[unfolded search_not_alive[OF False]] by auto
  show ?thesis unfolding e by (simp add: search_not_alive[OF False])
next
  case al: True
  let ?T = "searchIndex g + (a + b)"
  let ?T1 = "searchIndex g + a"
  let ?G = "g\<lparr>searchIndex := min ?T (int (length (paths g)))\<rparr>"
  let ?G1 = "g\<lparr>searchIndex := min ?T1 (int (length (paths g)))\<rparr>"
  have ab: "0 \<le> a + b" and le: "?T1 \<le> ?T" using a b by simp_all
  have f5: "flat_loop ev ?T ?G = Some (Inr (o5, g5))"
    using iffD1[OF search_alive_Inr[OF ok gi al ab] s5] by simp
  have li: "loop_inv ev ?T ?G" by (rule search_alive(1)[OF ok gi al ab])
  have li1: "loop_inv ev ?T1 ?G1" by (rule search_alive(1)[OF ok gi al a])
  have al1: "alive ?G1" using al by (simp add: alive_def)
  have c: "cap ?T1 ?G = ?G1" using le by (simp add: cap_def min_def)
  obtain o1 g1 where f1: "flat_loop ev ?T1 ?G1 = Some (Inr (o1, g1))"
    and rest: "if o1 = Finished
               then flat_loop ev ?T (g1\<lparr>searchIndex := min ?T (int (length (paths g1)))\<rparr>)
                    = Some (Inr (o5, g5))
               else o1 = o5 \<and> g1 = g5"
    using flat_split_fwd[OF f5] f5 le ok li c by metis
  have s3: "search ev a g = Some (Inr (g1, py_slice (searchIndex g) ?T1 (paths g1), o1))"
    by (rule iffD2[OF search_alive_Inr[OF ok gi al a]]) (simp add: f1)
  have gi1: "game_inv ev g1" by (rule search_inv(1)[OF ok gi s3])
  note post = flat_loop_post[OF ok li1 al1 f1]
  have "\<exists>r2. search ev b g1 = Some (Inr (g5, r2, o5))"
  proof (cases "o1 = Finished")
    case True
    then have al3: "alive g1" and si3: "searchIndex g1 = ?T1" using post(2) by simp_all
    have "flat_loop ev (searchIndex g1 + b)
            (g1\<lparr>searchIndex := min (searchIndex g1 + b) (int (length (paths g1)))\<rparr>)
          = Some (Inr (o5, g5))"
      using rest True si3 by (simp add: add.assoc)
    then have "search ev b g1 =
            Some (Inr (g5, py_slice (searchIndex g1) (searchIndex g1 + b) (paths g5), o5))"
      by (intro iffD2[OF search_alive_Inr[OF ok gi1 al3 b]]) simp
    then show ?thesis by blast
  next
    case False
    then have "\<not> alive g1" "o1 = (if endpoints (startTree g1) = [] then NoPathsStarting else NoPathsEnding)"
      "o1 = o5" "g1 = g5"
      using post(3) rest by simp_all
    then show ?thesis using search_not_alive[of g1 ev b] by simp
  qed
  then obtain r2 where s2: "search ev b g1 = Some (Inr (g5, r2, o5))" by blast
  have "py_slice (searchIndex g) ?T1 (paths g1) @ r2 = r5"
    by (rule split_results[OF ok gi a b s5 s3 s2])
  then show ?thesis using s3 s2 by blast
qed

lemma search_split_bwd:
  assumes ok: "sched_ok ev" and gi: "game_inv ev g" and a: "0 \<le> a" and b: "0 \<le> b"
    and s3: "search ev a g = Some (Inr (g3, r3, o3))"
    and s2: "search ev b g3 = Some (Inr (g2, r2, o2))"
  shows "search ev (a + b) g = Some (Inr (g2, r3 @ r2, o2))"
proof (cases "alive g")
  case False
  have e3: "g3 = g" "r3 = []" using s3[unfolded search_not_alive[OF False]] by auto
  have e2: "g2 = g" "r2 = []"
    "o2 = (if endpoints (startTree g) = [] then NoPathsStarting else NoPathsEnding)"
    using s2[unfolded e3 search_not_alive[OF False]] by auto
  show ?thesis unfolding e2 e3 by (simp add: search_not_alive[OF False])
next
  case al: True
  let ?T = "searchIndex g + (a + b)"
  let ?T1 = "searchIndex g + a"
  let ?G = "g\<lparr>searchIndex := min ?T (int (length (paths g)))\<rparr>"
  let ?G1 = "g\<lparr>searchIndex := min ?T1 (int (length (paths g)))\<rparr>"
  have ab: "0 \<le> a + b" and le: "?T1 \<le> ?T" using a b by simp_all
  have f1: "flat_loop ev ?T1 ?G1 = Some (Inr (o3, g3))"
    using iffD1[OF search_alive_Inr[OF ok gi al a] s3] by simp
  have li: "loop_inv ev ?T ?G" by (rule search_alive(1)[OF ok gi al ab])
  have li1: "loop_inv ev ?T1 ?G1" by (rule search_alive(1)[OF ok gi al a])
  have al1: "alive ?G1" using al by (simp add: alive_def)
  have c: "?G1 = cap ?T1 ?G" using le by (simp add: cap_def min_def)
  have gi3: "game_inv ev g3" by (rule search_inv(1)[OF ok gi s3])
  note post = flat_loop_post[OF ok li1 al1 f1]
  have rest: "if o3 = Finished
              then flat_loop ev ?T (g3\<lparr>searchIndex := min ?T (int (length (paths g3)))\<rparr>)
                   = Some (Inr (o2, g2))
              else Inr (o2, g2) = Inr (o3, g3)"
  proof (cases "o3 = Finished")
    case True
    then have al3: "alive g3" and si3: "searchIndex g3 = ?T1" using post(2) by simp_all
    have "flat_loop ev (searchIndex g3 + b)
            (g3\<lparr>searchIndex := min (searchIndex g3 + b) (int (length (paths g3)))\<rparr>)
          = Some (Inr (o2, g2))"
      using iffD1[OF search_alive_Inr[OF ok gi3 al3 b] s2] by simp
    then show ?thesis using True si3 by (simp add: add.assoc)
  next
    case False
    then have na: "\<not> alive g3"
      and o3: "o3 = (if endpoints (startTree g3) = [] then NoPathsStarting else NoPathsEnding)"
      using post(3) by simp_all
    have "g2 = g3" "o2 = (if endpoints (startTree g3) = [] then NoPathsStarting else NoPathsEnding)"
      using s2[unfolded search_not_alive[OF na]] by auto
    then show ?thesis using False o3 by simp
  qed
  have "flat_loop ev ?T ?G = Some (Inr (o2, g2))"
    using flat_split_bwd[OF f1] c le ok li rest by blast
  then have s5: "search ev (a + b) g = Some (Inr (g2, py_slice (searchIndex g) ?T (paths g2), o2))"
    by (intro iffD2[OF search_alive_Inr[OF ok gi al ab]]) simp
  have "r3 @ r2 = py_slice (searchIndex g) ?T (paths g2)"
    by (rule split_results[OF ok gi a b s5 s3 s2])
  then show ?thesis using s5 by simp
qed

lemma search_negative:
  assumes "count < 0" "0 \<le> searchIndex g" "searchIndex g \<le> int (length (paths g))"
  shows "\<exists>res out. search ev count g = Some (Inr (g, res, out))"
proof (cases "alive g")
  case False
  then show ?thesis using search_not_alive[of g ev count] by simp
next
  case True
  have "g\<lparr>searchIndex := searchIndex g
             + max 0 (min (searchIndex g + count) (int (length (paths g))) - searchIndex g)\<rparr> = g"
    using assms by simp
  moreover have "search_loop ev (searchIndex g + count) g = Some (Inr (Finished, g))"
    using assms(1) by (intro search_loop_done) simp
  ultimately show ?thesis using True by (simp add: search_def Let_def alive_def)
qed

lemma game_reach_alive:
  assumes ok: "sched_ok ev" and r: "game_reach ev s e g"
  shows "alive g \<or> searchIndex g = int (length (paths g))"
  using r
proof (induction rule: game_reach.induct)
  case reach_Game
  show ?case by (simp add: alive_def Game_def Tree_def)
next
  case (reach_search g count g' res out)
  have gi: "game_inv ev g" using game_reach_inv[OF ok reach_search.hyps(1)] by simp
  show ?case
  proof (cases "alive g")
    case False
    then have "g' = g" using search_not_alive[OF False, of ev count] reach_search.hyps(2) by simp
    then show ?thesis using reach_search.IH by simp
  next
    case al: True
    show ?thesis
    proof (cases "0 \<le> count")
      case False
      then have "g' = g"
        using search_negative[of count g ev] gi reach_search.hyps(2) by (auto simp: game_inv_def)
      then show ?thesis using al by simp
    next
      case True
      let ?T = "searchIndex g + count"
      let ?G = "g\<lparr>searchIndex := min ?T (int (length (paths g)))\<rparr>"
      have f: "flat_loop ev ?T ?G = Some (Inr (out, g'))"
        using iffD1[OF search_alive_Inr[OF ok gi al True] reach_search.hyps(2)] by simp
      have li: "loop_inv ev ?T ?G" by (rule search_alive(1)[OF ok gi al True])
      have al1: "alive ?G" using al by (simp add: alive_def)
      show ?thesis using flat_loop_post(2,3)[OF ok li al1 f] by (cases "out = Finished") simp_all
    qed
  qed
qed


lemma search_buffered:
  assumes gi: "game_inv ev g" and al: "alive g \<or> searchIndex g = int (length (paths g))"
    and a: "0 \<le> a" and le: "searchIndex g + a \<le> int (length (paths g))"
  shows "\<exists>out. search ev a g =
           Some (Inr (g\<lparr>searchIndex := searchIndex g + a\<rparr>,
                      take (nat a) (drop (nat (searchIndex g)) (paths g)), out))"
proof (cases "alive g")
  case False
  then have "a = 0" using al a le by simp
  then show ?thesis using search_not_alive[OF False, of ev a] by simp
next
  case True
  have si: "0 \<le> searchIndex g" using gi by (simp add: game_inv_def)
  have g1: "g\<lparr>searchIndex := searchIndex g
             + max 0 (min (searchIndex g + a) (int (length (paths g))) - searchIndex g)\<rparr>
            = g\<lparr>searchIndex := searchIndex g + a\<rparr>"
    using a le by (simp add: min_def)
  have l: "search_loop ev (searchIndex g + a) (g\<lparr>searchIndex := searchIndex g + a\<rparr>)
           = Some (Inr (Finished, g\<lparr>searchIndex := searchIndex g + a\<rparr>))"
    by (intro search_loop_done) simp
  have "py_slice (searchIndex g) (searchIndex g + a) (paths g)
        = drop (nat (searchIndex g)) (take (nat (searchIndex g + a)) (paths g))"
    using si a by (intro py_slice_nonneg) simp_all
  also have "\<dots> = take (nat a) (drop (nat (searchIndex g)) (paths g))"
  proof -
    have "nat (searchIndex g + a) - nat (searchIndex g) = nat a" using si a by arith
    then show ?thesis by (simp add: drop_take)
  qed
  finally have r: "py_slice (searchIndex g) (searchIndex g + a) (paths g)
        = take (nat a) (drop (nat (searchIndex g)) (paths g))" .
  have "search ev a g =
           Some (Inr (g\<lparr>searchIndex := searchIndex g + a\<rparr>,
                      take (nat a) (drop (nat (searchIndex g)) (paths g)), Finished))"
    using True unfolding search_def Let_def alive_def g1 by (simp add: l r)
  then show ?thesis by blast
qed

text \<open>
  C3. For two counts \<open>a\<close> and \<open>b\<close> that are not negative (\<open>3\<close> and \<open>2\<close>, say), on a game
  reached from \<open>Game\<close> by calls of \<open>search\<close>: when \<open>search(a + b)\<close> returns, \<open>search(a)\<close>
  followed by \<open>search(b)\<close> returns the same paths in the same order, split in two lists,
  and leaves the same game; and when \<open>search(a)\<close> followed by \<open>search(b)\<close> returns,
  \<open>search(a + b)\<close> returns the two lists in one. When at least \<open>a\<close> recorded paths lie
  beyond the cursor, \<open>search(a)\<close> returns the first \<open>a\<close> of them and moves the cursor;
  the trees and the recorded paths stay as they are.
\<close>

theorem pagination:
  assumes "sched_ok ev" and "game_reach ev s e g" and "0 \<le> a" and "0 \<le> b"
  shows "(\<forall>g5 r5 o5. search ev (a + b) g = Some (Inr (g5, r5, o5)) \<longrightarrow>
            (\<exists>g3 r3 o3 r2. search ev a g = Some (Inr (g3, r3, o3))
               \<and> search ev b g3 = Some (Inr (g5, r2, o5)) \<and> r3 @ r2 = r5))
         \<and> (\<forall>g3 r3 o3 g2 r2 o2.
               search ev a g = Some (Inr (g3, r3, o3)) \<longrightarrow>
               search ev b g3 = Some (Inr (g2, r2, o2)) \<longrightarrow>
               search ev (a + b) g = Some (Inr (g2, r3 @ r2, o2)))
         \<and> (searchIndex g + a \<le> int (length (paths g)) \<longrightarrow>
               (\<exists>out. search ev a g =
                  Some (Inr (g\<lparr>searchIndex := searchIndex g + a\<rparr>,
                             take (nat a) (drop (nat (searchIndex g)) (paths g)), out))))"
proof -
  have gi: "game_inv ev g" using game_reach_inv[OF assms(1,2)] by simp
  have al: "alive g \<or> searchIndex g = int (length (paths g))"
    by (rule game_reach_alive[OF assms(1,2)])
  show ?thesis
    using search_split_fwd[OF assms(1) gi assms(3,4)] search_split_bwd[OF assms(1) gi assms(3,4)]
      search_buffered[OF gi al assms(3)]
    by blast
qed

theorem pagination_witness:
  "sched_ok ev_W \<and> game_reach ev_W ''A'' ''D'' (Game ''A'' ''D'') \<and> (0::int) \<le> 1
   \<and> search ev_W 1 (Game ''A'' ''D'') =
       Some (Inr (game_W_1,
                  [[Page ''A'' None, Page ''W'' (Some (Page ''A'' None)), Page ''D'' None]],
                  Finished))
   \<and> search ev_W 1 game_W_1 =
       Some (Inr (game_W_2,
                  [[Page ''A'' None, Page ''W'' (Some (Page ''A'' None)),
                    Page ''M'' (Some (Page ''W'' (Some (Page ''D'' None)))),
                    Page ''W'' (Some (Page ''D'' None)), Page ''D'' None]],
                  Finished))
   \<and> search ev_W (1 + 1) (Game ''A'' ''D'') =
       Some (Inr (game_W_2,
                  [[Page ''A'' None, Page ''W'' (Some (Page ''A'' None)), Page ''D'' None]]
                  @ [[Page ''A'' None, Page ''W'' (Some (Page ''A'' None)),
                      Page ''M'' (Some (Page ''W'' (Some (Page ''D'' None)))),
                      Page ''W'' (Some (Page ''D'' None)), Page ''D'' None]],
                  Finished))"
proof -
  have c: "(0::int) \<le> 1" by simp
  note p = pagination[OF sched_ok_W reach_Game[of ev_W "''A''" "''D''"] c c]
  have "search ev_W (1 + 1) (Game ''A'' ''D'') =
       Some (Inr (game_W_2,
                  [[Page ''A'' None, Page ''W'' (Some (Page ''A'' None)), Page ''D'' None]]
                  @ [[Page ''A'' None, Page ''W'' (Some (Page ''A'' None)),
                      Page ''M'' (Some (Page ''W'' (Some (Page ''D'' None)))),
                      Page ''W'' (Some (Page ''D'' None)), Page ''D'' None]],
                  Finished))"
    using p search_W_first search_W_second by blast
  then show ?thesis
    using sched_ok_W reach_Game[of ev_W "''A''" "''D''"] c search_W_first search_W_second
    by (intro conjI) assumption+
qed

end
